theory Spec2Isabelle
  imports Main "HOL-Library.AList"
begin

section \<open>JavaScript values, truthiness and plain objects\<close>

text \<open>
  Fields typed \<open>any\<close> in the source (\<open>content\<close>, \<open>args\<close>, \<open>toolResult\<close>) hold
  arbitrary JavaScript values. The code only ever tests them for truthiness and stores
  them, so a value is one of the primitive shapes or an opaque object (carried as its
  serialised text). Numbers are the integral ones.
\<close>

datatype jsval = JUndefined | JNull | JBool bool | JNum int | JStr string | JObj string

fun truthy :: "jsval \<Rightarrow> bool" where
  "truthy JUndefined = False"
| "truthy JNull = False"
| "truthy (JBool b) = b"
| "truthy (JNum n) = (n \<noteq> 0)"
| "truthy (JStr s) = (s \<noteq> [])"
| "truthy (JObj s) = True"

text \<open>
  An optional or nullable string is \<open>None\<close> when it is \<open>undefined\<close> or \<open>null\<close>.
  It is truthy when it is present and not the empty string.
\<close>

definition truthy_str :: "string option \<Rightarrow> bool" where
  "truthy_str x = (case x of None \<Rightarrow> False | Some s \<Rightarrow> s \<noteq> [])"

definition str_of :: "string option \<Rightarrow> string" where
  "str_of x = (case x of None \<Rightarrow> [] | Some s \<Rightarrow> s)"

text \<open>\<open>x || null\<close>, \<open>x || y\<close> on optional strings and \<open>x || 'literal'\<close>.\<close>

definition or_null :: "string option \<Rightarrow> string option" where
  "or_null x = (if truthy_str x then x else None)"

definition or_else :: "string option \<Rightarrow> string option \<Rightarrow> string option" where
  "or_else x y = (if truthy_str x then x else y)"

definition or_str :: "string option \<Rightarrow> string \<Rightarrow> string" where
  "or_str x d = (if truthy_str x then str_of x else d)"

text \<open>
  A plain object (\<open>{}\<close>, \<open>Record<string, T>\<close>) is the list of its own properties in
  insertion order. Reading \<open>obj[k]\<close> finds an own property, or else a property that
  every plain object inherits from \<open>Object.prototype\<close> (a function or object, hence
  truthy and never \<open>undefined\<close>), or else \<open>undefined\<close>.
\<close>

definition object_prototype_keys :: "string list" where
  "object_prototype_keys =
     [''constructor'', ''__proto__'', ''hasOwnProperty'', ''isPrototypeOf'',
      ''propertyIsEnumerable'', ''toLocaleString'', ''toString'', ''valueOf'',
      ''__defineGetter__'', ''__defineSetter__'', ''__lookupGetter__'',
      ''__lookupSetter__'']"

datatype 'a property = Own 'a | Inherited | Absent

definition obj_get :: "(string \<times> 'a) list \<Rightarrow> string \<Rightarrow> 'a property" where
  "obj_get obj k =
     (case map_of obj k of
        Some v \<Rightarrow> Own v
      | None \<Rightarrow> if k \<in> set object_prototype_keys then Inherited else Absent)"

text \<open>
  \<open>{...obj, [k]: v}\<close> defines an own property. The assignment \<open>obj[k] = v\<close> does the
  same, except that assigning a boolean to \<open>__proto__\<close> on an object without such an
  own property runs the inherited setter, which ignores a value that is not an object.
\<close>

definition obj_define :: "(string \<times> 'a) list \<Rightarrow> string \<Rightarrow> 'a \<Rightarrow> (string \<times> 'a) list" where
  "obj_define obj k v = AList.update k v obj"

definition obj_assign_bool :: "(string \<times> bool) list \<Rightarrow> string \<Rightarrow> bool \<Rightarrow> (string \<times> bool) list" where
  "obj_assign_bool obj k v =
     (if k = ''__proto__'' \<and> map_of obj k = None then obj else AList.update k v obj)"

text \<open>
  \<open>Object.values\<close> visits the own properties whose key is an array index (the canonical
  decimal form of an integer below \<open>2^32 - 1\<close>) first, in ascending numeric order, and
  then the other keys in insertion order.
\<close>

definition is_digit :: "char \<Rightarrow> bool" where
  "is_digit c = (c \<in> set ''0123456789'')"

definition dec_value :: "string \<Rightarrow> nat" where
  "dec_value s = fold (\<lambda>c n. 10 * n + (of_char c - 48)) s 0"

definition is_array_index :: "string \<Rightarrow> bool" where
  "is_array_index s =
     (s \<noteq> [] \<and> list_all is_digit s \<and> (hd s \<noteq> CHR ''0'' \<or> length s = 1)
      \<and> dec_value s \<le> 4294967294)"

definition object_entries :: "(string \<times> 'a) list \<Rightarrow> (string \<times> 'a) list" where
  "object_entries obj =
     sort_key (\<lambda>kv. dec_value (fst kv)) (filter (\<lambda>kv. is_array_index (fst kv)) obj)
     @ filter (\<lambda>kv. \<not> is_array_index (fst kv)) obj"

definition object_values :: "(string \<times> 'a) list \<Rightarrow> 'a list" where
  "object_values obj = map snd (object_entries obj)"

section \<open>Event model\<close>

datatype EventType =
    Start | Finish | ChunkText | ChunkSubAgentText | ToolCallStart | ToolResult
  | ChunkTable | ChunkCode | ChunkChart

record Payload =
  messageId :: "string option"
  p_type :: "string option"
  thinking :: "string option"
  content :: jsval
  finalAnswer :: "string option"
  suggestion :: "string option"
  p_toolCallId :: "string option"
  toolName :: "string option"
  args :: jsval
  toolResult :: jsval

record StreamEvent =
  etype :: EventType
  runId :: string
  parentId :: "string option"
  toolCallId :: "string option"
  agentId :: "string option"
  timestamp :: string
  payload :: "Payload option"

text \<open>Optional chaining \<open>e.payload?.field\<close>.\<close>

definition payload_str :: "(Payload \<Rightarrow> string option) \<Rightarrow> StreamEvent \<Rightarrow> string option" where
  "payload_str field e = (case payload e of None \<Rightarrow> None | Some p \<Rightarrow> field p)"

definition payload_val :: "(Payload \<Rightarrow> jsval) \<Rightarrow> StreamEvent \<Rightarrow> jsval" where
  "payload_val field e = (case payload e of None \<Rightarrow> JUndefined | Some p \<Rightarrow> field p)"

section \<open>Incremental render engine: duplicate suppression\<close>

text \<open>
  \<open>AssistantMessage\<close>, the effect on the \<open>event\<close> prop
  (\<open>components/AssistantMessage.tsx\<close>, lines 616 to 635).
\<close>

definition isDuplicate :: "StreamEvent list \<Rightarrow> StreamEvent \<Rightarrow> bool" where
  "isDuplicate prev event =
     list_ex (\<lambda>e. runId e = runId event \<and> etype e = etype event
                  \<and> timestamp e = timestamp event
                  \<and> payload_str messageId e = payload_str messageId event) prev"

text \<open>The effect on the \<open>event\<close> prop; \<open>None\<close> is the prop being \<open>null\<close>.\<close>

definition appendEvent :: "StreamEvent list \<Rightarrow> StreamEvent option \<Rightarrow> StreamEvent list" where
  "appendEvent prev ev =
     (case ev of
        None \<Rightarrow> prev
      | Some event \<Rightarrow> if isDuplicate prev event then prev else prev @ [event])"

section \<open>Execution tree builder\<close>

text \<open>
  \<open>buildExecutionTree\<close> and \<open>rootNodes\<close> (lines 637 to 707). The tree is a plain
  object keyed by run identifier; the \<open>toolCalls\<close> of a node are a \<open>Map\<close>, kept as the
  list of its entries in insertion order (\<open>set\<close> on a key that is present keeps its place).

  \<open>childAgent\<close> holds a reference to a node object of the tree under construction. The
  tree object is the store of those node objects, one per run identifier, so the
  reference is the run identifier of the node it points to.
\<close>

record ToolCallNode =
  tc_toolCallId :: string
  tc_toolName :: string
  startEvent :: StreamEvent
  resultEvent :: "StreamEvent option"
  childAgent :: "string option"

record ExecutionNode =
  n_runId :: string
  n_parentId :: "string option"
  n_toolCallId :: "string option"
  n_agentId :: "string option"
  events :: "StreamEvent list"
  toolCalls :: "(string \<times> ToolCallNode) list"
  startTime :: "string option"
  endTime :: "string option"

type_synonym ExecutionTree = "(string \<times> ExecutionNode) list"

datatype error = TypeError

fun forEach_err :: "('s \<Rightarrow> 'a \<Rightarrow> error + 's) \<Rightarrow> 'a list \<Rightarrow> 's \<Rightarrow> error + 's" where
  "forEach_err f [] s = Inr s"
| "forEach_err f (x # xs) s =
     (case f s x of Inl err \<Rightarrow> Inl err | Inr s' \<Rightarrow> forEach_err f xs s')"

definition map_nodes :: "(ExecutionNode \<Rightarrow> ExecutionNode) \<Rightarrow> ExecutionTree \<Rightarrow> ExecutionTree" where
  "map_nodes f nodes = map (\<lambda>kv. (fst kv, f (snd kv))) nodes"

text \<open>
  Step 1. An event without a run identifier is skipped. \<open>nodes[runId]\<close> that is an
  inherited property is truthy, so no node is created, and reading \<open>.events.push\<close> of it
  throws.
\<close>

definition new_node :: "StreamEvent \<Rightarrow> ExecutionNode" where
  "new_node event =
     \<lparr> n_runId = runId event,
       n_parentId = or_null (parentId event),
       n_toolCallId = or_null (toolCallId event),
       n_agentId = or_null (agentId event),
       events = [],
       toolCalls = [],
       startTime = None,
       endTime = None \<rparr>"

definition group_event :: "ExecutionTree \<Rightarrow> StreamEvent \<Rightarrow> error + ExecutionTree" where
  "group_event nodes event =
     (if runId event = [] then Inr nodes
      else (case obj_get nodes (runId event) of
              Absent \<Rightarrow> Inr (nodes @ [(runId event, (new_node event)\<lparr>events := [event]\<rparr>)])
            | Own node \<Rightarrow>
                Inr (AList.update (runId event) (node\<lparr>events := events node @ [event]\<rparr>) nodes)
            | Inherited \<Rightarrow> Inl TypeError))"

text \<open>Step 2. Each node's times are set from its own events.\<close>

definition first_timestamp :: "StreamEvent list \<Rightarrow> string option" where
  "first_timestamp evs = (case evs of [] \<Rightarrow> None | e # _ \<Rightarrow> Some (timestamp e))"

definition last_timestamp :: "StreamEvent list \<Rightarrow> string option" where
  "last_timestamp evs = (if evs = [] then None else Some (timestamp (last evs)))"

definition set_times :: "ExecutionNode \<Rightarrow> ExecutionNode" where
  "set_times node =
     (let startEvent = find (\<lambda>e. etype e = Start) (events node);
          finishEvent = find (\<lambda>e. etype e = Finish) (events node)
      in node\<lparr> startTime :=
                  or_null (or_else (map_option timestamp startEvent)
                                   (first_timestamp (events node))),
                endTime :=
                  or_null (or_else (map_option timestamp finishEvent)
                                   (last_timestamp (events node))) \<rparr>)"

text \<open>Step 3. One scan of the node's events fills its \<open>toolCalls\<close> map.\<close>

definition tool_event ::
  "(string \<times> ToolCallNode) list \<Rightarrow> StreamEvent \<Rightarrow> (string \<times> ToolCallNode) list" where
  "tool_event tcs event =
     (if etype event = ToolCallStart \<and> truthy_str (payload_str p_toolCallId event) then
        (let tid = str_of (payload_str p_toolCallId event)
         in AList.update tid
              \<lparr> tc_toolCallId = tid,
                tc_toolName = or_str (payload_str toolName event) ''unknown'',
                startEvent = event,
                resultEvent = None,
                childAgent = None \<rparr> tcs)
      else if etype event = ToolResult \<and> truthy_str (payload_str p_toolCallId event) then
        (let tid = str_of (payload_str p_toolCallId event)
         in case map_of tcs tid of
              None \<Rightarrow> tcs
            | Some toolCall \<Rightarrow> AList.update tid (toolCall\<lparr>resultEvent := Some event\<rparr>) tcs)
      else tcs)"

definition scan_tool_calls ::
  "StreamEvent list \<Rightarrow> (string \<times> ToolCallNode) list \<Rightarrow> (string \<times> ToolCallNode) list" where
  "scan_tool_calls evs tcs = foldl tool_event tcs evs"

definition extract_tool_calls :: "ExecutionNode \<Rightarrow> ExecutionNode" where
  "extract_tool_calls node = node\<lparr>toolCalls := scan_tool_calls (events node) (toolCalls node)\<rparr>"

text \<open>
  Step 4. A node with a parent and a tool call identifier is linked into the parent's
  tool call. \<open>nodes[parentId]\<close> that is an inherited property is truthy and has no
  \<open>toolCalls\<close>, so \<open>.get\<close> on it throws.
\<close>

definition link_child :: "ExecutionTree \<Rightarrow> ExecutionNode \<Rightarrow> error + ExecutionTree" where
  "link_child nodes node =
     (if truthy_str (n_parentId node) \<and> truthy_str (n_toolCallId node) then
        (case obj_get nodes (str_of (n_parentId node)) of
           Absent \<Rightarrow> Inr nodes
         | Inherited \<Rightarrow> Inl TypeError
         | Own parentNode \<Rightarrow>
             (case map_of (toolCalls parentNode) (str_of (n_toolCallId node)) of
                None \<Rightarrow> Inr nodes
              | Some toolCall \<Rightarrow>
                  Inr (AList.update (str_of (n_parentId node))
                        (parentNode\<lparr>toolCalls :=
                           AList.update (str_of (n_toolCallId node))
                             (toolCall\<lparr>childAgent := Some (n_runId node)\<rparr>)
                             (toolCalls parentNode)\<rparr>)
                        nodes)))
      else Inr nodes)"

definition buildExecutionTree :: "StreamEvent list \<Rightarrow> error + ExecutionTree" where
  "buildExecutionTree evs =
     (case forEach_err group_event evs [] of
        Inl err \<Rightarrow> Inl err
      | Inr nodes1 \<Rightarrow>
          (let nodes2 = map_nodes set_times nodes1;
               nodes3 = map_nodes extract_tool_calls nodes2
           in forEach_err link_child (object_values nodes3) nodes3))"

definition rootNodes :: "ExecutionTree \<Rightarrow> ExecutionNode list" where
  "rootNodes tree = filter (\<lambda>node. \<not> truthy_str (n_parentId node)) (object_values tree)"

section \<open>Message consolidator\<close>

text \<open>
  \<open>processedData\<close> of \<open>ExecutionNodeComponent\<close> (lines 421 to 525): one scan of the
  node's events fills two \<open>Map\<close>s, whose entries are then merged and sorted by order
  index with the stable \<open>Array.prototype.sort\<close>.
\<close>

record MessageEntry =
  m_messageId :: string
  m_event :: StreamEvent
  m_thinking :: string
  m_textContent :: jsval
  m_finalAnswer :: string
  m_structuredContent :: jsval
  m_suggestion :: string
  m_orderIndex :: nat

record ScanState =
  messageMap :: "(string \<times> MessageEntry) list"
  toolCallMap :: "(string \<times> nat) list"

definition isTextChunk :: "StreamEvent \<Rightarrow> bool" where
  "isTextChunk e = (etype e = ChunkText \<or> etype e = ChunkSubAgentText)"

definition isStructuredChunk :: "StreamEvent \<Rightarrow> bool" where
  "isStructuredChunk e = (etype e = ChunkTable \<or> etype e = ChunkCode \<or> etype e = ChunkChart)"

definition create_entry :: "StreamEvent \<Rightarrow> nat \<Rightarrow> MessageEntry" where
  "create_entry e idx =
     \<lparr> m_messageId = str_of (payload_str messageId e),
       m_event = e,
       m_thinking = or_str (payload_str thinking e) [],
       m_textContent =
         (if isTextChunk e
          then (if truthy (payload_val content e) then payload_val content e else JStr [])
          else JStr []),
       m_finalAnswer = or_str (payload_str finalAnswer e) [],
       m_structuredContent = (if isStructuredChunk e then payload_val content e else JUndefined),
       m_suggestion = or_str (payload_str suggestion e) [],
       m_orderIndex = idx \<rparr>"

definition update_entry :: "MessageEntry \<Rightarrow> StreamEvent \<Rightarrow> MessageEntry" where
  "update_entry item e =
     (let item1 = (if truthy_str (payload_str thinking e)
                   then item\<lparr>m_thinking := str_of (payload_str thinking e)\<rparr> else item);
          item2 = (if isTextChunk e \<and> truthy (payload_val content e)
                   then item1\<lparr>m_textContent := payload_val content e\<rparr>
                   else if isStructuredChunk e \<and> truthy (payload_val content e)
                   then item1\<lparr>m_structuredContent := payload_val content e\<rparr>
                   else item1);
          item3 = (if truthy_str (payload_str finalAnswer e)
                   then item2\<lparr>m_finalAnswer := str_of (payload_str finalAnswer e)\<rparr> else item2)
      in (if truthy_str (payload_str suggestion e)
          then item3\<lparr>m_suggestion := str_of (payload_str suggestion e)\<rparr> else item3))"

definition process_event :: "ScanState \<Rightarrow> nat \<Rightarrow> StreamEvent \<Rightarrow> ScanState" where
  "process_event st idx e =
     (let st1 =
        (if (isTextChunk e \<or> isStructuredChunk e) \<and> truthy_str (payload_str messageId e) then
           (let msgId = str_of (payload_str messageId e)
            in case map_of (messageMap st) msgId of
                 None \<Rightarrow> st\<lparr>messageMap := AList.update msgId (create_entry e idx) (messageMap st)\<rparr>
               | Some item \<Rightarrow>
                   st\<lparr>messageMap := AList.update msgId (update_entry item e) (messageMap st)\<rparr>)
         else st)
      in (if etype e = ToolCallStart \<and> truthy_str (payload_str p_toolCallId e)
          then st1\<lparr>toolCallMap :=
                     AList.update (str_of (payload_str p_toolCallId e)) idx (toolCallMap st1)\<rparr>
          else st1))"

fun scan_events :: "StreamEvent list \<Rightarrow> nat \<Rightarrow> ScanState \<Rightarrow> ScanState" where
  "scan_events [] idx st = st"
| "scan_events (e # es) idx st = scan_events es (Suc idx) (process_event st idx e)"

datatype OrderedItem =
    MessageItem string MessageEntry nat
  | ToolCallItem string nat

fun orderIndex :: "OrderedItem \<Rightarrow> nat" where
  "orderIndex (MessageItem msgId entry idx) = idx"
| "orderIndex (ToolCallItem tid idx) = idx"

definition unsorted_items :: "ScanState \<Rightarrow> OrderedItem list" where
  "unsorted_items st =
     map (\<lambda>kv. MessageItem (fst kv) (snd kv) (m_orderIndex (snd kv))) (messageMap st)
     @ map (\<lambda>kv. ToolCallItem (fst kv) (snd kv)) (toolCallMap st)"

definition processedData :: "StreamEvent list \<Rightarrow> OrderedItem list" where
  "processedData evs =
     sort_key orderIndex
       (unsorted_items (scan_events evs 0 \<lparr>messageMap = [], toolCallMap = []\<rparr>))"

section \<open>Disclosure state and the auto-expand/collapse effect\<close>

text \<open>
  The state \<open>expandedItems\<close> and the ref \<open>prevEventsRef\<close> of a node component, the
  callback \<open>toggleItemExpand\<close> (lines 410 to 418), the effect (lines 528 to 561) and the
  flag handed to a message (line 570).
\<close>

record Disclosure =
  expandedItems :: "(string \<times> bool) list"
  prevEvents :: "StreamEvent list"

text \<open>\<open>!prev[id]\<close>: an inherited property is a function or an object, hence truthy.\<close>

definition not_flag :: "bool property \<Rightarrow> bool" where
  "not_flag v = (case v of Own b \<Rightarrow> \<not> b | Inherited \<Rightarrow> False | Absent \<Rightarrow> True)"

definition toggleItemExpand :: "Disclosure \<Rightarrow> string \<Rightarrow> Disclosure" where
  "toggleItemExpand st ident =
     st\<lparr>expandedItems :=
          obj_define (expandedItems st) ident (not_flag (obj_get (expandedItems st) ident))\<rparr>"

definition hasContent :: "MessageEntry \<Rightarrow> bool" where
  "hasContent entry =
     (truthy (m_textContent entry) \<or> m_finalAnswer entry \<noteq> []
      \<or> truthy (m_structuredContent entry))"

definition policy_item ::
  "bool \<Rightarrow> bool \<Rightarrow> StreamEvent list \<Rightarrow> (string \<times> bool) list \<times> bool \<Rightarrow> OrderedItem
     \<Rightarrow> (string \<times> bool) list \<times> bool" where
  "policy_item autoExpand autoCollapse prevEvs acc item =
     (case item of
        ToolCallItem tid idx \<Rightarrow> acc
      | MessageItem msgId entry idx \<Rightarrow>
          (let prevItem = find (\<lambda>e. payload_str messageId e = Some msgId) prevEvs;
               acc1 =
                 (if autoExpand \<and> prevItem = None \<and> m_thinking entry \<noteq> []
                     \<and> \<not> hasContent entry \<and> obj_get (fst acc) msgId = Absent
                  then (obj_assign_bool (fst acc) msgId True, True) else acc)
           in (case prevItem of
                 None \<Rightarrow> acc1
               | Some prevEvent \<Rightarrow>
                   if autoCollapse \<and> \<not> truthy (payload_val content prevEvent)
                      \<and> hasContent entry
                   then (obj_assign_bool (fst acc1) msgId False, True) else acc1)))"

text \<open>
  One run of the effect of a node component, on the node's current events. It reads the
  previous events from the ref and stores the current ones there.
\<close>

definition autoPolicy :: "bool \<Rightarrow> bool \<Rightarrow> Disclosure \<Rightarrow> StreamEvent list \<Rightarrow> Disclosure" where
  "autoPolicy autoExpand autoCollapse st nodeEvents =
     (if \<not> autoExpand \<and> \<not> autoCollapse then st
      else (let res = foldl (policy_item autoExpand autoCollapse (prevEvents st))
                        (expandedItems st, False) (processedData nodeEvents)
            in \<lparr> expandedItems = (if snd res then fst res else expandedItems st),
                 prevEvents = nodeEvents \<rparr>))"

definition isExpanded :: "Disclosure \<Rightarrow> string \<Rightarrow> bool" where
  "isExpanded st msgId = (obj_get (expandedItems st) msgId \<noteq> Own False)"

section \<open>What the view derives from the accumulated events\<close>

text \<open>
  The tree is rebuilt from the whole event list on every change, and each node component
  consolidates its own node's events. The projections below read one part of that result;
  they are \<open>None\<close> when the build throws or the part does not exist.
\<close>

definition derived_items :: "StreamEvent list \<Rightarrow> error + (string \<times> OrderedItem list) list" where
  "derived_items evs =
     (case buildExecutionTree evs of
        Inl err \<Rightarrow> Inl err
      | Inr tree \<Rightarrow> Inr (map (\<lambda>kv. (fst kv, processedData (events (snd kv)))) tree))"

definition built_node :: "StreamEvent list \<Rightarrow> string \<Rightarrow> ExecutionNode option" where
  "built_node evs r =
     (case buildExecutionTree evs of Inl err \<Rightarrow> None | Inr tree \<Rightarrow> map_of tree r)"

definition tool_call :: "StreamEvent list \<Rightarrow> string \<Rightarrow> string \<Rightarrow> ToolCallNode option" where
  "tool_call evs r tid =
     (case built_node evs r of None \<Rightarrow> None | Some node \<Rightarrow> map_of (toolCalls node) tid)"

definition child_link :: "StreamEvent list \<Rightarrow> string \<Rightarrow> string \<Rightarrow> string option option" where
  "child_link evs r tid = map_option childAgent (tool_call evs r tid)"

definition node_items :: "StreamEvent list \<Rightarrow> string \<Rightarrow> OrderedItem list option" where
  "node_items evs r = map_option (\<lambda>node. processedData (events node)) (built_node evs r)"

definition root_ids :: "StreamEvent list \<Rightarrow> string list option" where
  "root_ids evs =
     (case buildExecutionTree evs of
        Inl err \<Rightarrow> None
      | Inr tree \<Rightarrow> Some (map n_runId (rootNodes tree)))"

section \<open>Vocabulary of the properties\<close>

text \<open>The events of one run, in arrival order.\<close>

definition bucket :: "StreamEvent list \<Rightarrow> string \<Rightarrow> StreamEvent list" where
  "bucket evs r = filter (\<lambda>e. runId e = r) evs"

text \<open>
  The events that the two scans react to: a tool call start or a tool result that carries
  the (non-empty) tool call identifier in its payload, and a chunk that carries the
  (non-empty) message identifier.
\<close>

definition is_start_for :: "string \<Rightarrow> StreamEvent \<Rightarrow> bool" where
  "is_start_for tid e =
     (etype e = ToolCallStart \<and> tid \<noteq> [] \<and> payload_str p_toolCallId e = Some tid)"

definition is_result_for :: "string \<Rightarrow> StreamEvent \<Rightarrow> bool" where
  "is_result_for tid e =
     (etype e = ToolResult \<and> tid \<noteq> [] \<and> payload_str p_toolCallId e = Some tid)"

definition is_chunk_for :: "string \<Rightarrow> StreamEvent \<Rightarrow> bool" where
  "is_chunk_for m e =
     ((isTextChunk e \<or> isStructuredChunk e) \<and> m \<noteq> [] \<and> payload_str messageId e = Some m)"

fun first_index :: "('a \<Rightarrow> bool) \<Rightarrow> 'a list \<Rightarrow> nat option" where
  "first_index P [] = None"
| "first_index P (x # xs) = (if P x then Some 0 else map_option Suc (first_index P xs))"

fun last_index :: "('a \<Rightarrow> bool) \<Rightarrow> 'a list \<Rightarrow> nat option" where
  "last_index P [] = None"
| "last_index P (x # xs) =
     (case last_index P xs of
        Some i \<Rightarrow> Some (Suc i)
      | None \<Rightarrow> if P x then Some 0 else None)"

text \<open>
  The times of a node as the specification words them, for a non-empty list of events:
  the timestamp of the first start (finish) event if there is one, and of the first (last)
  event otherwise. They are compared below with what \<open>set_times\<close> computes.
\<close>

definition spec_startTime :: "StreamEvent list \<Rightarrow> string option" where
  "spec_startTime evs =
     (case find (\<lambda>e. etype e = Start) evs of
        Some s \<Rightarrow> Some (timestamp s)
      | None \<Rightarrow> Some (timestamp (hd evs)))"

definition spec_endTime :: "StreamEvent list \<Rightarrow> string option" where
  "spec_endTime evs =
     (case find (\<lambda>e. etype e = Finish) evs of
        Some f \<Rightarrow> Some (timestamp f)
      | None \<Rightarrow> Some (timestamp (last evs)))"

text \<open>A timestamp that survives \<open>|| null\<close>.\<close>

definition present :: "string \<Rightarrow> string option" where
  "present s = (if s = [] then None else Some s)"

text \<open>
  No run identifier and no parent identifier of the list names a property that plain
  objects inherit. On such lists neither lookup in the tree object can throw.
\<close>

definition plain_ids :: "StreamEvent list \<Rightarrow> bool" where
  "plain_ids evs =
     list_all (\<lambda>e. runId e \<notin> set object_prototype_keys
                  \<and> str_of (parentId e) \<notin> set object_prototype_keys) evs"

text \<open>
  When the build throws. Only the three identifiers of an event matter: the build throws
  in step 1 on a run identifier that names an inherited property, and in step 4 on a run
  whose first event carries a tool call identifier and a parent identifier that names an
  inherited property.
\<close>

definition ids :: "StreamEvent \<Rightarrow> string \<times> string option \<times> string option" where
  "ids e = (runId e, parentId e, toolCallId e)"

definition throws_at :: "StreamEvent \<Rightarrow> bool" where
  "throws_at e =
     (truthy_str (parentId e) \<and> truthy_str (toolCallId e)
      \<and> str_of (parentId e) \<in> set object_prototype_keys)"

definition first_of_run :: "StreamEvent list \<Rightarrow> StreamEvent \<Rightarrow> bool" where
  "first_of_run evs e = (runId e \<noteq> [] \<and> find (\<lambda>x. runId x = runId e) evs = Some e)"

definition bad_run :: "StreamEvent list \<Rightarrow> string \<Rightarrow> bool" where
  "bad_run evs r =
     (r \<noteq> [] \<and> (case find (\<lambda>x. runId x = r) evs of
                    Some f \<Rightarrow> throws_at f
                  | None \<Rightarrow> False))"

definition ids_ok :: "StreamEvent list \<Rightarrow> bool" where
  "ids_ok evs =
     list_all (\<lambda>e. runId e \<notin> set object_prototype_keys \<and> \<not> bad_run evs (runId e)) evs"

section \<open>The result of each pass, in closed form\<close>

text \<open>After step 1 the node of run \<open>r\<close> holds the run's bucket and the identifiers of its first event.\<close>

definition grouped :: "StreamEvent list \<Rightarrow> string \<Rightarrow> ExecutionNode option" where
  "grouped evs r =
     (if r = [] then None
      else (case bucket evs r of
              [] \<Rightarrow> None
            | e # es \<Rightarrow> Some ((new_node e)\<lparr>events := e # es\<rparr>)))"

definition prepared :: "StreamEvent list \<Rightarrow> string \<Rightarrow> ExecutionNode option" where
  "prepared evs r = map_option (\<lambda>nd. extract_tool_calls (set_times nd)) (grouped evs r)"

text \<open>
  Step 4 for one visited node \<open>n\<close>: the tool call \<open>tid\<close> of the node stored under \<open>r\<close> is
  relinked exactly when \<open>n\<close> names \<open>r\<close> as parent and \<open>tid\<close> as tool call.
\<close>

definition claims :: "ExecutionNode \<Rightarrow> string \<Rightarrow> string \<Rightarrow> bool" where
  "claims n r tid =
     (truthy_str (n_parentId n) \<and> truthy_str (n_toolCallId n)
      \<and> str_of (n_parentId n) = r \<and> str_of (n_toolCallId n) = tid)"

definition relink_tc ::
  "ExecutionNode \<Rightarrow> string \<Rightarrow> string \<times> ToolCallNode \<Rightarrow> string \<times> ToolCallNode" where
  "relink_tc n r tk =
     (if claims n r (fst tk) then (fst tk, (snd tk)\<lparr>childAgent := Some (n_runId n)\<rparr>) else tk)"

definition relink :: "ExecutionNode \<Rightarrow> string \<times> ExecutionNode \<Rightarrow> string \<times> ExecutionNode" where
  "relink n kv = (fst kv, (snd kv)\<lparr>toolCalls := map (relink_tc n (fst kv)) (toolCalls (snd kv))\<rparr>)"

text \<open>Step 4 for the whole list of visited nodes: the last claimant wins.\<close>

definition link_result ::
  "ExecutionNode list \<Rightarrow> string \<Rightarrow> string \<Rightarrow> string option \<Rightarrow> string option" where
  "link_result ns r tid old =
     foldl (\<lambda>acc n. if claims n r tid then Some (n_runId n) else acc) old ns"

definition linked :: "ExecutionNode list \<Rightarrow> string \<times> ExecutionNode \<Rightarrow> string \<times> ExecutionNode" where
  "linked ns kv =
     (fst kv, (snd kv)\<lparr>toolCalls :=
        map (\<lambda>tk. (fst tk, (snd tk)\<lparr>childAgent :=
                      link_result ns (fst kv) (fst tk) (childAgent (snd tk))\<rparr>))
          (toolCalls (snd kv))\<rparr>)"

definition final_node :: "ExecutionNode list \<Rightarrow> string \<Rightarrow> ExecutionNode \<Rightarrow> ExecutionNode" where
  "final_node ns r nd = snd (linked ns (r, extract_tool_calls (set_times nd)))"

text \<open>
  The invariant of the step 3 scan: every entry was created by a start event of the
  scanned prefix, and a recorded result is a result event that comes after that start.
\<close>

definition tc_inv :: "StreamEvent list \<Rightarrow> (string \<times> ToolCallNode) list \<Rightarrow> bool" where
  "tc_inv done tcs \<longleftrightarrow>
     (\<forall>tid tc. map_of tcs tid = Some tc \<longrightarrow>
        (\<exists>i<length done. is_start_for tid (done ! i) \<and> startEvent tc = done ! i
           \<and> (\<forall>rv. resultEvent tc = Some rv \<longrightarrow>
                 (\<exists>j. i < j \<and> j < length done \<and> done ! j = rv \<and> is_result_for tid rv))))"

definition scanned :: "StreamEvent list \<Rightarrow> ScanState" where
  "scanned evs = scan_events evs 0 \<lparr>messageMap = [], toolCallMap = []\<rparr>"

section \<open>Concrete events used in the examples\<close>

definition no_payload :: Payload where
  "no_payload =
     \<lparr> messageId = None, p_type = None, thinking = None, content = JUndefined,
       finalAnswer = None, suggestion = None, p_toolCallId = None, toolName = None,
       args = JUndefined, toolResult = JUndefined \<rparr>"

definition mk_event ::
  "EventType \<Rightarrow> string \<Rightarrow> string option \<Rightarrow> string option \<Rightarrow> string \<Rightarrow> Payload option
     \<Rightarrow> StreamEvent" where
  "mk_event ty r p t ts pl =
     \<lparr> etype = ty, runId = r, parentId = p, toolCallId = t, agentId = None,
       timestamp = ts, payload = pl \<rparr>"

definition text_chunk :: "string \<Rightarrow> string \<Rightarrow> string \<Rightarrow> string \<Rightarrow> StreamEvent" where
  "text_chunk r ts m txt =
     mk_event ChunkText r None None ts
       (Some (no_payload\<lparr>messageId := Some m, content := JStr txt\<rparr>))"

definition thinking_chunk :: "string \<Rightarrow> string \<Rightarrow> string \<Rightarrow> string \<Rightarrow> StreamEvent" where
  "thinking_chunk r ts m txt =
     mk_event ChunkText r None None ts
       (Some (no_payload\<lparr>messageId := Some m, thinking := Some txt\<rparr>))"

definition tool_start :: "string \<Rightarrow> string \<Rightarrow> string \<Rightarrow> StreamEvent" where
  "tool_start r ts tid =
     mk_event ToolCallStart r None None ts (Some (no_payload\<lparr>p_toolCallId := Some tid\<rparr>))"

definition sub_start :: "string \<Rightarrow> string \<Rightarrow> string \<Rightarrow> string \<Rightarrow> StreamEvent" where
  "sub_start r p tid ts = mk_event Start r (Some p) (Some tid) ts None"

text \<open>The scenario "tool call with sub-agent", for any timestamps and any tool result.\<close>

definition scenario ::
  "string \<Rightarrow> string \<Rightarrow> string \<Rightarrow> string \<Rightarrow> string \<Rightarrow> string \<Rightarrow> string \<Rightarrow> jsval
     \<Rightarrow> StreamEvent list" where
  "scenario t1 t2 t3 t4 t5 t6 t7 res =
     [ mk_event Start ''A'' None None t1 None,
       mk_event ToolCallStart ''A'' None None t2
         (Some (no_payload\<lparr>p_toolCallId := Some ''t1'', toolName := Some ''search''\<rparr>)),
       mk_event Start ''B'' (Some ''A'') (Some ''t1'') t3 None,
       mk_event ChunkText ''B'' (Some ''A'') (Some ''t1'') t4
         (Some (no_payload\<lparr>messageId := Some ''m2'', content := JStr ''found it''\<rparr>)),
       mk_event Finish ''B'' (Some ''A'') (Some ''t1'') t5 None,
       mk_event ToolResult ''A'' None None t6
         (Some (no_payload\<lparr>p_toolCallId := Some ''t1'', toolResult := res\<rparr>)),
       mk_event Finish ''A'' None None t7 None ]"

definition sc :: "StreamEvent list" where
  "sc = scenario ''1'' ''2'' ''3'' ''4'' ''5'' ''6'' ''7'' (JObj ''{}'')"

definition sc_child_first :: "StreamEvent list" where
  "sc_child_first = bucket sc ''B'' @ bucket sc ''A''"

text \<open>A tool call identifier that starts twice, with a message in between.\<close>

definition restarted_tool :: "StreamEvent list" where
  "restarted_tool =
     [tool_start ''A'' ''1'' ''t1'', text_chunk ''A'' ''2'' ''m1'' ''Hi'',
      tool_start ''A'' ''3'' ''t1'']"

text \<open>A run whose start event has the empty timestamp and is not its first event.\<close>

definition empty_start_time :: "StreamEvent list" where
  "empty_start_time =
     [text_chunk ''A'' ''t0'' ''m1'' ''Hi'', mk_event Start ''A'' None None [] None]"

text \<open>
  Two runs that both name tool call \<open>t1\<close> of run \<open>P\<close> as their origin, and the same events
  with the second run moved in front of the parent's first event.
\<close>

definition two_claimants :: "StreamEvent list" where
  "two_claimants =
     [mk_event Start ''P'' None None ''1'' None, tool_start ''P'' ''2'' ''t1'',
      sub_start ''C1'' ''P'' ''t1'' ''3'', sub_start ''C2'' ''P'' ''t1'' ''4'']"

definition two_claimants_moved :: "StreamEvent list" where
  "two_claimants_moved =
     [sub_start ''C2'' ''P'' ''t1'' ''4'', mk_event Start ''P'' None None ''1'' None,
      tool_start ''P'' ''2'' ''t1'', sub_start ''C1'' ''P'' ''t1'' ''3'']"

text \<open>
  One message of run \<open>A\<close>: reasoning first, then text, then more text. The disclosure
  state after the first two events, after the user then toggles the message, and after
  the third event then arrives.
\<close>

definition think_1 :: StreamEvent where
  "think_1 = thinking_chunk ''A'' ''1'' ''m1'' ''Let me think''"

definition text_2 :: StreamEvent where
  "text_2 = text_chunk ''A'' ''2'' ''m1'' ''Hi''"

definition text_3 :: StreamEvent where
  "text_3 = text_chunk ''A'' ''3'' ''m1'' ''Hi there''"

definition before_toggle :: Disclosure where
  "before_toggle =
     autoPolicy True True
       (autoPolicy True True \<lparr>expandedItems = [], prevEvents = []\<rparr> [think_1])
       [think_1, text_2]"

definition after_toggle :: Disclosure where
  "after_toggle = toggleItemExpand before_toggle ''m1''"

definition after_event :: Disclosure where
  "after_event = autoPolicy True True after_toggle [think_1, text_2, text_3]"

section \<open>Unfolding the definitions on concrete inputs\<close>

lemmas js_defs = truthy_str_def str_of_def or_null_def or_else_def or_str_def obj_get_def
  object_prototype_keys_def obj_define_def obj_assign_bool_def is_digit_def dec_value_def
  is_array_index_def object_entries_def object_values_def payload_str_def payload_val_def

lemmas tree_defs = map_nodes_def new_node_def group_event_def
  first_timestamp_def last_timestamp_def set_times_def tool_event_def scan_tool_calls_def
  extract_tool_calls_def link_child_def buildExecutionTree_def rootNodes_def

lemmas items_defs = isTextChunk_def isStructuredChunk_def create_entry_def update_entry_def
  process_event_def unsorted_items_def processedData_def

lemmas policy_defs = not_flag_def toggleItemExpand_def hasContent_def policy_item_def
  autoPolicy_def isExpanded_def

lemmas view_defs = built_node_def tool_call_def child_link_def node_items_def root_ids_def

lemmas example_defs = no_payload_def mk_event_def text_chunk_def thinking_chunk_def
  tool_start_def sub_start_def

section \<open>Duplicate suppression\<close>

lemma isDuplicate_self: "isDuplicate (prev @ [c]) c"
  by (simp add: isDuplicate_def)

lemma appendEvent_twice: "appendEvent (appendEvent prev ev) ev = appendEvent prev ev"
  by (cases ev) (simp_all add: appendEvent_def isDuplicate_self)

lemma isDuplicate_key:
  assumes "E \<in> set prev" "runId E = runId c" "etype E = etype c"
    "timestamp E = timestamp c" "payload_str messageId E = payload_str messageId c"
  shows "isDuplicate prev c"
  using assms unfolding isDuplicate_def list_ex_iff by blast

section \<open>Association lists and the linking pass\<close>

lemma update_as_map:
  "distinct (map fst al) \<Longrightarrow> map_of al k = Some v \<Longrightarrow>
     AList.update k w al = map (\<lambda>kv. if fst kv = k then (k, w) else kv) al"
proof (induction al)
  case Nil
  then show ?case by simp
next
  case (Cons a al)
  show ?case
  proof (cases "fst a = k")
    case True
    with Cons.prems have "k \<notin> fst ` set al" by auto
    then have "map (\<lambda>kv. if fst kv = k then (k, w) else kv) al = al"
      by (intro map_idI) force
    with True show ?thesis by (cases a) simp
  next
    case False
    with Cons show ?thesis by (cases a) auto
  qed
qed

lemma map_of_unique:
  "distinct (map fst al) \<Longrightarrow> kv \<in> set al \<Longrightarrow> map_of al (fst kv) = Some (snd kv)"
  by (cases kv) simp

lemma relink_tc_id: "\<not> claims n r (fst tk) \<Longrightarrow> relink_tc n r tk = tk"
  by (simp add: relink_tc_def)

lemma relink_id:
  assumes "\<forall>tk\<in>set (toolCalls (snd kv)). \<not> claims n (fst kv) (fst tk)"
  shows "relink n kv = kv"
proof -
  have "map (relink_tc n (fst kv)) (toolCalls (snd kv)) = toolCalls (snd kv)"
    using assms by (intro map_idI) (simp add: relink_tc_id)
  then show ?thesis by (simp add: relink_def)
qed

lemma link_child_cases:
  assumes dn: "distinct (map fst nodes)"
    and dt: "\<forall>kv\<in>set nodes. distinct (map fst (toolCalls (snd kv)))"
  shows "(link_child nodes n = Inl TypeError
            \<and> truthy_str (n_parentId n) \<and> truthy_str (n_toolCallId n)
            \<and> str_of (n_parentId n) \<in> set object_prototype_keys
            \<and> str_of (n_parentId n) \<notin> fst ` set nodes)
         \<or> (link_child nodes n = Inr (map (relink n) nodes)
            \<and> (truthy_str (n_parentId n) \<and> truthy_str (n_toolCallId n)
                 \<longrightarrow> str_of (n_parentId n) \<in> fst ` set nodes
                     \<or> str_of (n_parentId n) \<notin> set object_prototype_keys))"
proof (cases "truthy_str (n_parentId n) \<and> truthy_str (n_toolCallId n)")
  case False
  then have "\<forall>kv\<in>set nodes. relink n kv = kv"
    by (intro ballI relink_id) (auto simp: claims_def)
  then have "map (relink n) nodes = nodes" by (intro map_idI) simp
  with False show ?thesis by (auto simp: link_child_def)
next
  case tr: True
  define pid where "pid = str_of (n_parentId n)"
  define tid where "tid = str_of (n_toolCallId n)"
  have cl: "claims n r t \<longleftrightarrow> r = pid \<and> t = tid" for r t
    using tr by (auto simp: claims_def pid_def tid_def)
  show ?thesis
  proof (cases "map_of nodes pid")
    case None
    then have notin: "pid \<notin> fst ` set nodes" by (simp add: map_of_eq_None_iff)
    then have "\<forall>kv\<in>set nodes. relink n kv = kv"
      by (intro ballI relink_id) (auto simp: cl)
    then have idm: "map (relink n) nodes = nodes" by (intro map_idI) simp
    show ?thesis
    proof (cases "pid \<in> set object_prototype_keys")
      case True
      with None tr notin show ?thesis
        by (simp add: link_child_def obj_get_def pid_def[symmetric])
    next
      case False
      with None tr idm show ?thesis
        by (simp add: link_child_def obj_get_def pid_def[symmetric])
    qed
  next
    case (Some parentNode)
    then have inn: "pid \<in> fst ` set nodes" by (metis map_of_eq_None_iff option.distinct(1))
    have dtp: "distinct (map fst (toolCalls parentNode))"
      using dt Some by (force dest: map_of_SomeD)
    have other: "relink n kv = kv" if "kv \<in> set nodes" "fst kv \<noteq> pid" for kv
      using that by (intro relink_id) (simp add: cl)
    have this_kv: "kv = (pid, parentNode)" if "kv \<in> set nodes" "fst kv = pid" for kv
    proof -
      have "map_of nodes (fst kv) = Some (snd kv)"
        using map_of_unique[OF dn that(1)] .
      with that(2) Some have "snd kv = parentNode" by simp
      with that(2) show ?thesis by (simp add: prod_eq_iff)
    qed
    show ?thesis
    proof (cases "map_of (toolCalls parentNode) tid")
      case None
      then have "tid \<notin> fst ` set (toolCalls parentNode)" by (simp add: map_of_eq_None_iff)
      then have "relink n (pid, parentNode) = (pid, parentNode)"
        by (intro relink_id) (auto simp: cl)
      then have "\<forall>kv\<in>set nodes. relink n kv = kv"
        using other this_kv by metis
      then have idm: "map (relink n) nodes = nodes" by (intro map_idI) simp
      from None Some tr idm inn show ?thesis
        by (simp add: link_child_def obj_get_def pid_def[symmetric] tid_def[symmetric])
    next
      case tcs: (Some toolCall)
      define tc' where "tc' = toolCall\<lparr>childAgent := Some (n_runId n)\<rparr>"
      have tmap: "map (relink_tc n pid) (toolCalls parentNode)
                    = AList.update tid tc' (toolCalls parentNode)"
        unfolding update_as_map[OF dtp tcs]
      proof (rule map_cong[OF refl])
        fix tk assume tk: "tk \<in> set (toolCalls parentNode)"
        show "relink_tc n pid tk = (if fst tk = tid then (tid, tc') else tk)"
        proof (cases "fst tk = tid")
          case True
          moreover have "map_of (toolCalls parentNode) (fst tk) = Some (snd tk)"
            using map_of_unique[OF dtp tk] .
          ultimately have "tk = (tid, toolCall)"
            using tcs by (simp add: prod_eq_iff)
          then show ?thesis by (simp add: relink_tc_def cl tc'_def)
        next
          case False
          then show ?thesis by (simp add: relink_tc_def cl)
        qed
      qed
      define pn' where "pn' = parentNode\<lparr>toolCalls := AList.update tid tc' (toolCalls parentNode)\<rparr>"
      have nmap: "map (relink n) nodes = AList.update pid pn' nodes"
        unfolding update_as_map[OF dn Some]
      proof (rule map_cong[OF refl])
        fix kv assume kv: "kv \<in> set nodes"
        show "relink n kv = (if fst kv = pid then (pid, pn') else kv)"
        proof (cases "fst kv = pid")
          case True
          then have "kv = (pid, parentNode)" using this_kv kv by simp
          then show ?thesis using tmap by (simp add: relink_def pn'_def)
        next
          case False
          then show ?thesis using other kv by simp
        qed
      qed
      from tcs Some tr inn show ?thesis
        by (simp add: link_child_def obj_get_def pid_def[symmetric] tid_def[symmetric]
              nmap pn'_def tc'_def)
    qed
  qed
qed

lemma relink_keys: "map fst (map (relink n) nodes) = map fst nodes"
  by (simp add: relink_def comp_def)

lemma fst_relink_tc: "fst (relink_tc n r tk) = fst tk"
  by (simp add: relink_tc_def)

lemma relink_tc_keys: "map fst (map (relink_tc n r) tcs) = map fst tcs"
  by (simp add: comp_def fst_relink_tc)

lemma relink_tcs_distinct:
  assumes "\<forall>kv\<in>set nodes. distinct (map fst (toolCalls (snd kv)))"
  shows "\<forall>kv\<in>set (map (relink n) nodes). distinct (map fst (toolCalls (snd kv)))"
  using assms by (auto simp: relink_def comp_def fst_relink_tc)

lemma link_result_Cons:
  "link_result (n # ns) r tid old
     = link_result ns r tid (if claims n r tid then Some (n_runId n) else old)"
  by (simp add: link_result_def)

lemma linked_Nil: "linked [] kv = kv"
proof -
  have "map (\<lambda>tk. (fst tk, (snd tk)\<lparr>childAgent := childAgent (snd tk)\<rparr>)) tcs = tcs" for tcs :: "(string \<times> ToolCallNode) list"
    by (intro map_idI) simp
  then show ?thesis by (simp add: linked_def link_result_def)
qed

lemma linked_relink: "linked ns (relink n kv) = linked (n # ns) kv"
  by (simp add: linked_def relink_def relink_tc_def link_result_Cons comp_def)

lemma link_children_fold:
  assumes "distinct (map fst nodes)"
    and "\<forall>kv\<in>set nodes. distinct (map fst (toolCalls (snd kv)))"
    and "forEach_err link_child ns nodes = Inr nodes'"
  shows "nodes' = map (linked ns) nodes"
  using assms
proof (induction ns arbitrary: nodes)
  case Nil
  then show ?case by (simp add: linked_Nil)
next
  case (Cons n ns)
  from link_child_cases[OF Cons.prems(1,2), of n] Cons.prems(3)
  have st: "link_child nodes n = Inr (map (relink n) nodes)" by auto
  have "nodes' = map (linked ns) (map (relink n) nodes)"
  proof (rule Cons.IH)
    show "distinct (map fst (map (relink n) nodes))"
      using Cons.prems(1) by (simp only: relink_keys)
    show "\<forall>kv\<in>set (map (relink n) nodes). distinct (map fst (toolCalls (snd kv)))"
      using relink_tcs_distinct[OF Cons.prems(2)] .
    show "forEach_err link_child ns (map (relink n) nodes) = Inr nodes'"
      using Cons.prems(3) st by simp
  qed
  then show ?case by (simp add: linked_relink comp_def)
qed

lemma link_children_total:
  assumes "distinct (map fst nodes)"
    and "\<forall>kv\<in>set nodes. distinct (map fst (toolCalls (snd kv)))"
    and "\<forall>n\<in>set ns. str_of (n_parentId n) \<notin> set object_prototype_keys"
  shows "\<exists>nodes'. forEach_err link_child ns nodes = Inr nodes'"
  using assms
proof (induction ns arbitrary: nodes)
  case Nil
  then show ?case by simp
next
  case (Cons n ns)
  from link_child_cases[OF Cons.prems(1,2), of n] Cons.prems(3)
  have st: "link_child nodes n = Inr (map (relink n) nodes)" by auto
  have "\<exists>nodes'. forEach_err link_child ns (map (relink n) nodes) = Inr nodes'"
  proof (rule Cons.IH)
    show "distinct (map fst (map (relink n) nodes))"
      using Cons.prems(1) by (simp only: relink_keys)
    show "\<forall>kv\<in>set (map (relink n) nodes). distinct (map fst (toolCalls (snd kv)))"
      using relink_tcs_distinct[OF Cons.prems(2)] .
    show "\<forall>n\<in>set ns. str_of (n_parentId n) \<notin> set object_prototype_keys"
      using Cons.prems(3) by simp
  qed
  then show ?case using st by simp
qed

section \<open>Grouping by run and the shape of the built tree\<close>

lemma bucket_snoc: "bucket (evs @ [e]) r = (if runId e = r then bucket evs r @ [e] else bucket evs r)"
  by (simp add: bucket_def)

lemma grouped_Nil: "grouped [] r = None"
  by (simp add: grouped_def bucket_def)

lemma group_event_cases:
  assumes inv: "distinct (map fst nodes)" "\<forall>r. map_of nodes r = grouped done r"
  shows "(runId e \<in> set object_prototype_keys \<and> group_event nodes e = Inl TypeError)
         \<or> (\<exists>nodes'. group_event nodes e = Inr nodes' \<and> distinct (map fst nodes')
                   \<and> (\<forall>r. map_of nodes' r = grouped (done @ [e]) r))"
proof (cases "runId e = []")
  case True
  then show ?thesis using inv
    by (auto simp: group_event_def grouped_def bucket_snoc)
next
  case ne: False
  show ?thesis
  proof (cases "bucket done (runId e)")
    case Nil
    then have none: "map_of nodes (runId e) = None"
      using inv(2) ne by (simp add: grouped_def)
    then have notin: "runId e \<notin> fst ` set nodes"
      by (simp add: map_of_eq_None_iff)
    show ?thesis
    proof (cases "runId e \<in> set object_prototype_keys")
      case True
      then show ?thesis using ne none by (simp add: group_event_def obj_get_def)
    next
      case ok: False
      have g: "group_event nodes e = Inr (nodes @ [(runId e, (new_node e)\<lparr>events := [e]\<rparr>)])"
        using ne none ok by (simp add: group_event_def obj_get_def)
      have "\<forall>r. map_of (nodes @ [(runId e, (new_node e)\<lparr>events := [e]\<rparr>)]) r = grouped (done @ [e]) r"
      proof
        fix r
        show "map_of (nodes @ [(runId e, (new_node e)\<lparr>events := [e]\<rparr>)]) r = grouped (done @ [e]) r"
        proof (cases "r = runId e")
          case True
          then show ?thesis using none ne Nil
            by (simp add: map_add_def grouped_def bucket_snoc)
        next
          case False
          then have "map_of (nodes @ [(runId e, (new_node e)\<lparr>events := [e]\<rparr>)]) r = map_of nodes r"
            by (simp add: map_add_def split: option.splits)
          then show ?thesis using False inv(2)
            by (simp add: grouped_def bucket_snoc)
        qed
      qed
      then show ?thesis using g inv(1) notin by simp
    qed
  next
    case (Cons e0 es0)
    then have some: "map_of nodes (runId e) = Some ((new_node e0)\<lparr>events := e0 # es0\<rparr>)"
      using inv(2) ne by (simp add: grouped_def)
    have g: "group_event nodes e =
               Inr (AList.update (runId e) ((new_node e0)\<lparr>events := e0 # es0 @ [e]\<rparr>) nodes)"
      using ne some by (simp add: group_event_def obj_get_def)
    have "\<forall>r. map_of (AList.update (runId e) ((new_node e0)\<lparr>events := e0 # es0 @ [e]\<rparr>) nodes) r
              = grouped (done @ [e]) r"
      using inv(2) ne Cons by (auto simp: update_conv' grouped_def bucket_snoc)
    then show ?thesis using g inv(1) by (simp add: distinct_update)
  qed
qed

lemma group_events_fold:
  assumes "distinct (map fst nodes)" "\<forall>r. map_of nodes r = grouped done r"
  shows "((\<exists>e\<in>set evs. runId e \<in> set object_prototype_keys)
            \<and> forEach_err group_event evs nodes = Inl TypeError)
         \<or> (\<exists>nodes'. forEach_err group_event evs nodes = Inr nodes' \<and> distinct (map fst nodes')
               \<and> (\<forall>r. map_of nodes' r = grouped (done @ evs) r))"
  using assms
proof (induction evs arbitrary: nodes "done")
  case Nil
  then show ?case by simp
next
  case (Cons e evs)
  from group_event_cases[OF Cons.prems, of e] show ?case
  proof (elim disjE conjE exE)
    assume "runId e \<in> set object_prototype_keys" "group_event nodes e = Inl TypeError"
    then show ?thesis by simp
  next
    fix n1 assume n1: "group_event nodes e = Inr n1" "distinct (map fst n1)"
      "\<forall>r. map_of n1 r = grouped (done @ [e]) r"
    from Cons.IH[OF n1(2) n1(3)] n1(1) show ?thesis by auto
  qed
qed

lemma group_events:
  "((\<exists>e\<in>set evs. runId e \<in> set object_prototype_keys)
      \<and> forEach_err group_event evs [] = Inl TypeError)
   \<or> (\<exists>nodes. forEach_err group_event evs [] = Inr nodes \<and> distinct (map fst nodes)
         \<and> (\<forall>r. map_of nodes r = grouped evs r))"
  using group_events_fold[of "[]" "[]" evs] by (simp add: grouped_Nil)

lemma map_nodes_keys: "map fst (map_nodes f nodes) = map fst nodes"
  by (simp add: map_nodes_def comp_def)

lemma map_of_map_nodes: "map_of (map_nodes f nodes) r = map_option f (map_of nodes r)"
  by (induction nodes) (simp_all add: map_nodes_def)

lemma map_of_keyed_map:
  "map_of (map (\<lambda>kv. (fst kv, g (fst kv) (snd kv))) al) k = map_option (g k) (map_of al k)"
  by (induction al) simp_all

lemma set_object_entries: "set (object_entries obj) = set obj"
  by (auto simp: object_entries_def)

lemma set_object_values: "set (object_values obj) = snd ` set obj"
  by (simp add: object_values_def set_object_entries)

lemma tool_event_distinct: "distinct (map fst tcs) \<Longrightarrow> distinct (map fst (tool_event tcs e))"
  by (simp add: tool_event_def Let_def distinct_update split: option.splits)

lemma scan_tool_calls_distinct:
  "distinct (map fst tcs) \<Longrightarrow> distinct (map fst (scan_tool_calls evs tcs))"
  unfolding scan_tool_calls_def
  by (induction evs arbitrary: tcs) (simp_all add: tool_event_distinct)

lemma grouped_Some:
  assumes "grouped evs r = Some nd"
  shows "r \<noteq> []" "bucket evs r \<noteq> []" "events nd = bucket evs r"
    "nd = (new_node (hd (bucket evs r)))\<lparr>events := bucket evs r\<rparr>"
  using assms by (auto simp: grouped_def split: if_splits list.splits)

lemma build_tree_char:
  assumes "buildExecutionTree evs = Inr tree"
  shows "\<exists>ns. distinct (map fst tree)
           \<and> (\<forall>r. map_of tree r = map_option (final_node ns r) (grouped evs r))
           \<and> (\<forall>n. n \<in> set ns \<longleftrightarrow>
                 (\<exists>r nd. grouped evs r = Some nd \<and> n = extract_tool_calls (set_times nd)))"
proof -
  from assms obtain nodes1 where n1: "forEach_err group_event evs [] = Inr nodes1"
    by (auto simp: buildExecutionTree_def split: sum.splits)
  with group_events[of evs] have d1: "distinct (map fst nodes1)"
    and m1: "\<forall>r. map_of nodes1 r = grouped evs r" by auto
  define nodes3 where "nodes3 = map_nodes extract_tool_calls (map_nodes set_times nodes1)"
  define ns where "ns = object_values nodes3"
  have d3: "distinct (map fst nodes3)"
    using d1 by (simp add: nodes3_def map_nodes_keys)
  have m3: "map_of nodes3 r = prepared evs r" for r
    using m1 by (simp add: nodes3_def map_of_map_nodes prepared_def option.map_comp comp_def)
  have t3: "\<forall>kv\<in>set nodes3. distinct (map fst (toolCalls (snd kv)))"
  proof
    fix kv assume "kv \<in> set nodes3"
    then have "map_of nodes3 (fst kv) = Some (snd kv)"
      using map_of_unique[OF d3] by simp
    then obtain nd where nd: "grouped evs (fst kv) = Some nd"
      "snd kv = extract_tool_calls (set_times nd)"
      by (auto simp: m3 prepared_def)
    from grouped_Some(4)[OF nd(1)] have "toolCalls nd = []" by (simp add: new_node_def)
    then show "distinct (map fst (toolCalls (snd kv)))"
      using nd(2) by (simp add: extract_tool_calls_def set_times_def Let_def scan_tool_calls_distinct)
  qed
  have run: "forEach_err link_child ns nodes3 = Inr tree"
    using assms n1 by (simp add: buildExecutionTree_def nodes3_def ns_def Let_def)
  from link_children_fold[OF d3 t3 run] have tree: "tree = map (linked ns) nodes3" .
  have k: "map fst tree = map fst nodes3"
    by (simp add: tree linked_def comp_def)
  have mt: "map_of tree r = map_option (final_node ns r) (grouped evs r)" for r
  proof -
    have "tree = map (\<lambda>kv. (fst kv, (\<lambda>k v. snd (linked ns (k, v))) (fst kv) (snd kv))) nodes3"
      by (simp add: tree linked_def)
    then have "map_of tree r = map_option (\<lambda>v. snd (linked ns (r, v))) (map_of nodes3 r)"
      using map_of_keyed_map[of "\<lambda>k v. snd (linked ns (k, v))" nodes3 r] by simp
    then show ?thesis
      by (cases "grouped evs r") (simp_all add: m3 prepared_def final_node_def)
  qed
  have nsset: "n \<in> set ns \<longleftrightarrow>
      (\<exists>r nd. grouped evs r = Some nd \<and> n = extract_tool_calls (set_times nd))" for n
  proof
    assume "n \<in> set ns"
    then obtain kv where kv: "kv \<in> set nodes3" "n = snd kv"
      by (auto simp: ns_def set_object_values)
    then have "map_of nodes3 (fst kv) = Some n"
      using map_of_unique[OF d3] by simp
    then show "\<exists>r nd. grouped evs r = Some nd \<and> n = extract_tool_calls (set_times nd)"
      by (auto simp: m3 prepared_def)
  next
    assume "\<exists>r nd. grouped evs r = Some nd \<and> n = extract_tool_calls (set_times nd)"
    then obtain r where "map_of nodes3 r = Some n"
      by (auto simp: m3 prepared_def)
    then have "(r, n) \<in> set nodes3" by (rule map_of_SomeD)
    then show "n \<in> set ns" by (force simp: ns_def set_object_values)
  qed
  show ?thesis using d3 k mt nsset by (intro exI[of _ ns]) simp
qed

lemma plain_proto [simp]: "[] \<notin> set object_prototype_keys"
  by (simp add: object_prototype_keys_def)

lemma build_tree_total:
  assumes "plain_ids evs"
  shows "\<exists>tree. buildExecutionTree evs = Inr tree"
proof -
  from assms have runs: "\<forall>e\<in>set evs. runId e \<notin> set object_prototype_keys"
    and pars: "\<forall>e\<in>set evs. str_of (parentId e) \<notin> set object_prototype_keys"
    by (simp_all add: plain_ids_def list_all_iff)
  with group_events[of evs] obtain nodes1 where n1: "forEach_err group_event evs [] = Inr nodes1"
    and d1: "distinct (map fst nodes1)"
    and m1: "\<forall>r. map_of nodes1 r = grouped evs r" by auto
  define nodes3 where "nodes3 = map_nodes extract_tool_calls (map_nodes set_times nodes1)"
  define ns where "ns = object_values nodes3"
  have d3: "distinct (map fst nodes3)"
    using d1 by (simp add: nodes3_def map_nodes_keys)
  have m3: "map_of nodes3 r = prepared evs r" for r
    using m1 by (simp add: nodes3_def map_of_map_nodes prepared_def option.map_comp comp_def)
  have props: "distinct (map fst (toolCalls (snd kv)))
               \<and> str_of (n_parentId (snd kv)) \<notin> set object_prototype_keys"
    if "kv \<in> set nodes3" for kv
  proof -
    from that have "map_of nodes3 (fst kv) = Some (snd kv)"
      using map_of_unique[OF d3] by simp
    then obtain nd where nd: "grouped evs (fst kv) = Some nd"
      "snd kv = extract_tool_calls (set_times nd)"
      by (auto simp: m3 prepared_def)
    note g = grouped_Some[OF nd(1)]
    from g(4) have tc: "toolCalls nd = []" by (simp add: new_node_def)
    have "hd (bucket evs (fst kv)) \<in> set evs"
      using g(2) hd_in_set[of "bucket evs (fst kv)"] by (auto simp: bucket_def)
    then have "str_of (parentId (hd (bucket evs (fst kv)))) \<notin> set object_prototype_keys"
      using pars by simp
    moreover have "n_parentId (snd kv) = or_null (parentId (hd (bucket evs (fst kv))))"
      using nd(2) g(4) by (simp add: extract_tool_calls_def set_times_def Let_def new_node_def)
    ultimately have "str_of (n_parentId (snd kv)) \<notin> set object_prototype_keys"
      by (simp add: or_null_def str_of_def)
    then show ?thesis
      using nd(2) tc by (simp add: extract_tool_calls_def set_times_def Let_def scan_tool_calls_distinct)
  qed
  have "\<exists>nodes'. forEach_err link_child ns nodes3 = Inr nodes'"
  proof (rule link_children_total[OF d3])
    show "\<forall>kv\<in>set nodes3. distinct (map fst (toolCalls (snd kv)))" using props by simp
    show "\<forall>n\<in>set ns. str_of (n_parentId n) \<notin> set object_prototype_keys"
      using props by (auto simp: ns_def set_object_values)
  qed
  then show ?thesis
    using n1 by (simp add: buildExecutionTree_def nodes3_def ns_def Let_def)
qed

section \<open>The tool call scan\<close>

lemma truthy_str_Some: "truthy_str x \<longleftrightarrow> (\<exists>s. x = Some s \<and> s \<noteq> [])"
  by (cases x) (simp_all add: truthy_str_def)

lemma tool_event_start:
  "is_start_for tid e \<Longrightarrow>
     tool_event tcs e =
       AList.update tid \<lparr> tc_toolCallId = tid,
                          tc_toolName = or_str (payload_str toolName e) ''unknown'',
                          startEvent = e, resultEvent = None, childAgent = None \<rparr> tcs"
  by (simp add: is_start_for_def tool_event_def truthy_str_def str_of_def)

lemma tool_event_result:
  "is_result_for tid e \<Longrightarrow>
     tool_event tcs e =
       (case map_of tcs tid of
          None \<Rightarrow> tcs
        | Some toolCall \<Rightarrow> AList.update tid (toolCall\<lparr>resultEvent := Some e\<rparr>) tcs)"
  by (simp add: is_result_for_def tool_event_def truthy_str_def str_of_def)

lemma tool_event_cases:
  "(\<exists>tid. is_start_for tid e) \<or> (\<exists>tid. is_result_for tid e) \<or> tool_event tcs e = tcs"
  by (auto simp: is_start_for_def is_result_for_def tool_event_def truthy_str_Some)

lemma start_not_result: "is_start_for tid e \<Longrightarrow> \<not> is_result_for tid' e"
  by (simp add: is_start_for_def is_result_for_def)

lemma start_unique: "is_start_for tid e \<Longrightarrow> is_start_for tid' e \<Longrightarrow> tid' = tid"
  by (simp add: is_start_for_def)

lemma tool_event_keys:
  "fst ` set (tool_event tcs e) = fst ` set tcs \<union> {tid. is_start_for tid e}"
proof -
  consider (s) tid where "is_start_for tid e" | (r) tid where "is_result_for tid e"
    | (o) "\<forall>tid. \<not> is_start_for tid e" "tool_event tcs e = tcs"
    using tool_event_cases[of e tcs] by blast
  then show ?thesis
  proof cases
    case s
    then have "{t. is_start_for t e} = {tid}" using start_unique by blast
    then show ?thesis by (simp add: tool_event_start[OF s] dom_update)
  next
    case r
    then have "{t. is_start_for t e} = {}"
      by (auto simp: is_start_for_def is_result_for_def)
    then show ?thesis
      using map_of_SomeD[of tcs tid]
      by (force simp: tool_event_result[OF r] dom_update split: option.splits)
  next
    case o
    then show ?thesis by simp
  qed
qed

lemma scan_tool_calls_snoc:
  "scan_tool_calls (evs @ [e]) tcs = tool_event (scan_tool_calls evs tcs) e"
  by (simp add: scan_tool_calls_def)

lemma scan_tool_calls_append:
  "scan_tool_calls (xs @ ys) tcs = scan_tool_calls ys (scan_tool_calls xs tcs)"
  by (simp add: scan_tool_calls_def)

lemma scan_tool_calls_Cons:
  "scan_tool_calls (e # evs) tcs = scan_tool_calls evs (tool_event tcs e)"
  by (simp add: scan_tool_calls_def)

lemma scan_tool_calls_keys:
  "fst ` set (scan_tool_calls evs tcs) = fst ` set tcs \<union> {tid. \<exists>e\<in>set evs. is_start_for tid e}"
proof (induction evs rule: rev_induct)
  case Nil
  then show ?case by (simp add: scan_tool_calls_def)
next
  case (snoc e evs)
  then show ?case by (auto simp: scan_tool_calls_snoc tool_event_keys)
qed

lemma tc_inv_weaken:
  assumes "tc_inv done tcs" "map_of tcs tid = Some tc"
  shows "\<exists>i<length (done @ [e]). is_start_for tid ((done @ [e]) ! i) \<and> startEvent tc = (done @ [e]) ! i
           \<and> (\<forall>rv. resultEvent tc = Some rv \<longrightarrow>
                 (\<exists>j. i < j \<and> j < length (done @ [e]) \<and> (done @ [e]) ! j = rv \<and> is_result_for tid rv))"
proof -
  from assms obtain i where i: "i < length done" "is_start_for tid (done ! i)"
    "startEvent tc = done ! i"
    "\<forall>rv. resultEvent tc = Some rv \<longrightarrow>
        (\<exists>j. i < j \<and> j < length done \<and> done ! j = rv \<and> is_result_for tid rv)"
    unfolding tc_inv_def by blast
  have "\<forall>rv. resultEvent tc = Some rv \<longrightarrow>
      (\<exists>j. i < j \<and> j < length (done @ [e]) \<and> (done @ [e]) ! j = rv \<and> is_result_for tid rv)"
  proof (intro allI impI)
    fix rv assume "resultEvent tc = Some rv"
    with i(4) obtain j where "i < j" "j < length done" "done ! j = rv" "is_result_for tid rv"
      by blast
    then show "\<exists>j. i < j \<and> j < length (done @ [e]) \<and> (done @ [e]) ! j = rv \<and> is_result_for tid rv"
      by (intro exI[of _ j]) (simp add: nth_append)
  qed
  with i(1,2,3) show ?thesis
    by (intro exI[of _ i]) (simp add: nth_append)
qed

lemma tc_inv_step:
  assumes "tc_inv done tcs"
  shows "tc_inv (done @ [e]) (tool_event tcs e)"
proof -
  consider (s) t where "is_start_for t e" | (r) t where "is_result_for t e"
    | (o) "tool_event tcs e = tcs"
    using tool_event_cases[of e tcs] by blast
  then show ?thesis
  proof cases
    case s
    show ?thesis unfolding tc_inv_def
    proof (intro allI impI)
      fix tid tc assume m: "map_of (tool_event tcs e) tid = Some tc"
      show "\<exists>i<length (done @ [e]). is_start_for tid ((done @ [e]) ! i)
              \<and> startEvent tc = (done @ [e]) ! i
              \<and> (\<forall>rv. resultEvent tc = Some rv \<longrightarrow>
                 (\<exists>j. i < j \<and> j < length (done @ [e]) \<and> (done @ [e]) ! j = rv \<and> is_result_for tid rv))"
      proof (cases "tid = t")
        case True
        with m s have "startEvent tc = e" "resultEvent tc = None"
          by (auto simp: tool_event_start[OF s] update_conv')
        with s True show ?thesis
          by (intro exI[of _ "length done"]) simp
      next
        case False
        with m have "map_of tcs tid = Some tc"
          by (simp add: tool_event_start[OF s] update_conv')
        from tc_inv_weaken[OF assms this] show ?thesis .
      qed
    qed
  next
    case r
    show ?thesis
    proof (cases "map_of tcs t")
      case None
      then have "tool_event tcs e = tcs" by (simp add: tool_event_result[OF r])
      then show ?thesis using tc_inv_weaken[OF assms] unfolding tc_inv_def by simp
    next
      case (Some tc0)
      then have te: "tool_event tcs e = AList.update t (tc0\<lparr>resultEvent := Some e\<rparr>) tcs"
        by (simp add: tool_event_result[OF r])
      show ?thesis unfolding tc_inv_def
      proof (intro allI impI)
        fix tid tc assume m: "map_of (tool_event tcs e) tid = Some tc"
        show "\<exists>i<length (done @ [e]). is_start_for tid ((done @ [e]) ! i)
                \<and> startEvent tc = (done @ [e]) ! i
                \<and> (\<forall>rv. resultEvent tc = Some rv \<longrightarrow>
                   (\<exists>j. i < j \<and> j < length (done @ [e]) \<and> (done @ [e]) ! j = rv \<and> is_result_for tid rv))"
        proof (cases "tid = t")
          case True
          with m have tc: "tc = tc0\<lparr>resultEvent := Some e\<rparr>"
            by (simp add: te update_conv')
          from assms Some obtain i where i: "i < length done" "is_start_for t (done ! i)"
            "startEvent tc0 = done ! i"
            unfolding tc_inv_def by blast
          have "\<exists>j. i < j \<and> j < length (done @ [e]) \<and> (done @ [e]) ! j = e \<and> is_result_for t e"
            using i(1) r by (intro exI[of _ "length done"]) simp
          with i True tc show ?thesis
            by (intro exI[of _ i]) (simp add: nth_append)
        next
          case False
          with m have "map_of tcs tid = Some tc"
            by (simp add: te update_conv')
          from tc_inv_weaken[OF assms this] show ?thesis .
        qed
      qed
    qed
  next
    case o
    then show ?thesis using tc_inv_weaken[OF assms] unfolding tc_inv_def by simp
  qed
qed

lemma tc_inv_scan: "tc_inv evs (scan_tool_calls evs [])"
proof (induction evs rule: rev_induct)
  case Nil
  then show ?case by (simp add: scan_tool_calls_def tc_inv_def)
next
  case (snoc e evs)
  then show ?case by (simp add: scan_tool_calls_snoc tc_inv_step)
qed

lemma orphan_result_dropped:
  assumes "is_result_for tid rv" "map_of tcs tid = None"
  shows "tool_event tcs rv = tcs"
  using assms by (simp add: tool_event_result)

lemma orphan_result_scan:
  assumes "is_result_for tid rv" "\<not> list_ex (is_start_for tid) xs"
  shows "scan_tool_calls (xs @ rv # ys) [] = scan_tool_calls (xs @ ys) []"
proof -
  have "tid \<notin> fst ` set (scan_tool_calls xs [])"
    using assms(2) by (simp add: scan_tool_calls_keys list_ex_iff)
  then have "map_of (scan_tool_calls xs []) tid = None"
    by (simp add: map_of_eq_None_iff)
  then have "tool_event (scan_tool_calls xs []) rv = scan_tool_calls xs []"
    using assms(1) by (rule orphan_result_dropped[rotated])
  then show ?thesis
    by (simp add: scan_tool_calls_append scan_tool_calls_Cons)
qed

lemma final_node_fields:
  "events (final_node ns r nd) = events nd"
  "n_runId (final_node ns r nd) = n_runId nd"
  "n_parentId (final_node ns r nd) = n_parentId nd"
  "n_toolCallId (final_node ns r nd) = n_toolCallId nd"
  "startTime (final_node ns r nd) = startTime (set_times nd)"
  "endTime (final_node ns r nd) = endTime (set_times nd)"
  "toolCalls (final_node ns r nd) =
     map (\<lambda>tk. (fst tk, (snd tk)\<lparr>childAgent := link_result ns r (fst tk) (childAgent (snd tk))\<rparr>))
       (scan_tool_calls (events nd) (toolCalls nd))"
  by (simp_all add: final_node_def linked_def extract_tool_calls_def set_times_def Let_def)

lemma map_of_final_toolCalls:
  "map_of (toolCalls (final_node ns r nd)) tid =
     map_option (\<lambda>tc. tc\<lparr>childAgent := link_result ns r tid (childAgent tc)\<rparr>)
       (map_of (scan_tool_calls (events nd) (toolCalls nd)) tid)"
  using map_of_keyed_map[of "\<lambda>k tc. tc\<lparr>childAgent := link_result ns r k (childAgent tc)\<rparr>"
          "scan_tool_calls (events nd) (toolCalls nd)" tid]
  by (simp add: final_node_fields)

lemma tree_node:
  assumes "buildExecutionTree evs = Inr tree" "map_of tree r = Some node"
  shows "\<exists>ns nd. grouped evs r = Some nd \<and> node = final_node ns r nd
           \<and> (\<forall>n. n \<in> set ns \<longleftrightarrow>
                 (\<exists>r' nd'. grouped evs r' = Some nd' \<and> n = extract_tool_calls (set_times nd')))"
proof -
  from build_tree_char[OF assms(1)] obtain ns where
    m: "\<forall>r. map_of tree r = map_option (final_node ns r) (grouped evs r)"
    and n: "\<forall>n. n \<in> set ns \<longleftrightarrow>
                 (\<exists>r nd. grouped evs r = Some nd \<and> n = extract_tool_calls (set_times nd))"
    by blast
  from m assms(2) obtain nd where "grouped evs r = Some nd" "node = final_node ns r nd"
    by auto
  with n show ?thesis by blast
qed

lemma tree_node_tool_result:
  assumes "buildExecutionTree evs = Inr tree" "map_of tree r = Some node"
    "map_of (toolCalls node) tid = Some tc" "resultEvent tc = Some rv"
  shows "\<exists>i j. i < j \<and> j < length (events node) \<and> is_start_for tid (events node ! i)
           \<and> events node ! j = rv \<and> is_result_for tid rv"
proof -
  from tree_node[OF assms(1,2)] obtain ns nd where nd: "grouped evs r = Some nd"
    "node = final_node ns r nd" by blast
  from grouped_Some(4)[OF nd(1)] have e: "toolCalls nd = []"
    by (simp add: new_node_def)
  from assms(3) obtain tc0 where tc0: "map_of (scan_tool_calls (events nd) []) tid = Some tc0"
    "tc = tc0\<lparr>childAgent := link_result ns r tid (childAgent tc0)\<rparr>"
    by (auto simp: nd(2) map_of_final_toolCalls e)
  then have "resultEvent tc0 = Some rv" using assms(4) by simp
  with tc_inv_scan[of "events nd"] tc0(1) obtain i j where
    "i < length (events nd)" "is_start_for tid (events nd ! i)"
    "i < j" "j < length (events nd)" "events nd ! j = rv" "is_result_for tid rv"
    unfolding tc_inv_def by blast
  then show ?thesis by (auto simp: nd(2) final_node_fields)
qed

section \<open>The consolidator scan\<close>

lemma first_index_Some:
  "first_index P xs = Some i \<Longrightarrow> i < length xs \<and> P (xs ! i) \<and> (\<forall>j<i. \<not> P (xs ! j))"
proof (induction xs arbitrary: i)
  case Nil
  then show ?case by simp
next
  case (Cons x xs)
  show ?case
  proof (cases "P x")
    case True
    with Cons.prems show ?thesis by simp
  next
    case False
    with Cons.prems obtain k where k: "first_index P xs = Some k" "i = Suc k" by auto
    from Cons.IH[OF k(1)] False k(2) show ?thesis
      by (auto simp: nth_Cons split: nat.splits)
  qed
qed

lemma first_index_None: "first_index P xs = None \<longleftrightarrow> \<not> list_ex P xs"
  by (induction xs) auto

lemma last_index_None: "last_index P xs = None \<longleftrightarrow> \<not> list_ex P xs"
  by (induction xs) (auto split: option.splits)

lemma last_index_Some:
  "last_index P xs = Some i \<Longrightarrow>
     i < length xs \<and> P (xs ! i) \<and> (\<forall>j. i < j \<and> j < length xs \<longrightarrow> \<not> P (xs ! j))"
proof (induction xs arbitrary: i)
  case Nil
  then show ?case by simp
next
  case (Cons x xs)
  show ?case
  proof (cases "last_index P xs")
    case None
    with Cons.prems have i: "i = 0" "P x" by (auto split: if_splits)
    from None have "\<forall>y\<in>set xs. \<not> P y" by (simp add: last_index_None list_ex_iff)
    then have "\<forall>j. 0 < j \<and> j < length (x # xs) \<longrightarrow> \<not> P ((x # xs) ! j)"
      by (auto simp: nth_Cons split: nat.splits)
    with i show ?thesis by simp
  next
    case (Some k)
    with Cons.prems have i: "i = Suc k" by simp
    from Cons.IH[OF Some] have k: "k < length xs" "P (xs ! k)"
      "\<forall>j. k < j \<and> j < length xs \<longrightarrow> \<not> P (xs ! j)" by auto
    have "\<forall>j. Suc k < j \<and> j < length (x # xs) \<longrightarrow> \<not> P ((x # xs) ! j)"
      using k(3) by (auto simp: nth_Cons split: nat.splits)
    with i k(1,2) show ?thesis by simp
  qed
qed

lemma process_toolCallMap:
  "map_of (toolCallMap (process_event st k e)) tid =
     (if is_start_for tid e then Some k else map_of (toolCallMap st) tid)"
  by (auto simp: process_event_def Let_def is_start_for_def update_conv' truthy_str_Some str_of_def
           split: option.splits)

lemma process_toolCallMap_distinct:
  "distinct (map fst (toolCallMap st)) \<Longrightarrow> distinct (map fst (toolCallMap (process_event st k e)))"
  by (auto simp: process_event_def Let_def distinct_update split: option.splits)

lemma process_messageMap_distinct:
  "distinct (map fst (messageMap st)) \<Longrightarrow> distinct (map fst (messageMap (process_event st k e)))"
  by (auto simp: process_event_def Let_def distinct_update split: option.splits)

lemma process_messageMap:
  "map_of (messageMap (process_event st k e)) m =
     (if is_chunk_for m e
      then Some (case map_of (messageMap st) m of
                   None \<Rightarrow> create_entry e k
                 | Some item \<Rightarrow> update_entry item e)
      else map_of (messageMap st) m)"
  by (auto simp: process_event_def Let_def is_chunk_for_def update_conv' truthy_str_Some str_of_def
           split: option.splits)

lemma update_entry_orderIndex: "m_orderIndex (update_entry item e) = m_orderIndex item"
  by (simp add: update_entry_def Let_def)

lemma create_entry_orderIndex: "m_orderIndex (create_entry e k) = k"
  by (simp add: create_entry_def)

lemma scan_toolCallMap:
  "map_of (toolCallMap (scan_events evs k st)) tid =
     (case last_index (is_start_for tid) evs of
        Some i \<Rightarrow> Some (k + i)
      | None \<Rightarrow> map_of (toolCallMap st) tid)"
proof (induction evs arbitrary: k st)
  case Nil
  then show ?case by simp
next
  case (Cons e evs)
  show ?case
    by (simp add: Cons.IH process_toolCallMap split: option.splits)
qed

lemma scan_messageMap_index:
  "map_option m_orderIndex (map_of (messageMap (scan_events evs k st)) m) =
     (case map_of (messageMap st) m of
        Some item \<Rightarrow> Some (m_orderIndex item)
      | None \<Rightarrow> map_option (\<lambda>i. k + i) (first_index (is_chunk_for m) evs))"
proof (induction evs arbitrary: k st)
  case Nil
  then show ?case by (simp split: option.splits)
next
  case (Cons e evs)
  show ?case
    by (cases "first_index (is_chunk_for m) evs")
       (simp_all add: Cons.IH process_messageMap update_entry_orderIndex create_entry_orderIndex
          split: option.splits)
qed

lemma scan_distinct:
  "distinct (map fst (messageMap st)) \<Longrightarrow> distinct (map fst (toolCallMap st)) \<Longrightarrow>
     distinct (map fst (messageMap (scan_events evs k st)))
     \<and> distinct (map fst (toolCallMap (scan_events evs k st)))"
  by (induction evs arbitrary: k st)
     (simp_all add: process_messageMap_distinct process_toolCallMap_distinct)

lemma set_processedData: "set (processedData evs) = set (unsorted_items (scanned evs))"
  by (simp add: processedData_def scanned_def)

lemma in_alist_iff: "distinct (map fst al) \<Longrightarrow> (k, v) \<in> set al \<longleftrightarrow> map_of al k = Some v"
  by (auto dest: map_of_SomeD)

lemma tool_item_iff:
  "ToolCallItem tid idx \<in> set (processedData evs)
     \<longleftrightarrow> last_index (is_start_for tid) evs = Some idx"
proof -
  have d: "distinct (map fst (toolCallMap (scanned evs)))"
    using scan_distinct[of "\<lparr>messageMap = [], toolCallMap = []\<rparr>" evs 0]
    by (simp add: scanned_def)
  have "ToolCallItem tid idx \<in> set (processedData evs)
          \<longleftrightarrow> (tid, idx) \<in> set (toolCallMap (scanned evs))"
    by (force simp: set_processedData unsorted_items_def image_iff prod_eq_iff)
  also have "\<dots> \<longleftrightarrow> map_of (toolCallMap (scanned evs)) tid = Some idx"
    by (rule in_alist_iff[OF d])
  also have "\<dots> \<longleftrightarrow> last_index (is_start_for tid) evs = Some idx"
    by (simp add: scanned_def scan_toolCallMap split: option.splits)
  finally show ?thesis .
qed

lemma message_item_index:
  assumes "MessageItem m entry idx \<in> set (processedData evs)"
  shows "first_index (is_chunk_for m) evs = Some idx \<and> m_orderIndex entry = idx"
proof -
  have d: "distinct (map fst (messageMap (scanned evs)))"
    using scan_distinct[of "\<lparr>messageMap = [], toolCallMap = []\<rparr>" evs 0]
    by (simp add: scanned_def)
  from assms have "(m, entry) \<in> set (messageMap (scanned evs))" and i: "idx = m_orderIndex entry"
    by (auto simp: set_processedData unsorted_items_def image_iff prod_eq_iff)
  then have "map_of (messageMap (scanned evs)) m = Some entry"
    using in_alist_iff[OF d] by simp
  then have "map_option m_orderIndex (map_of (messageMap (scanned evs)) m) = Some idx"
    using i by simp
  then have "first_index (is_chunk_for m) evs = Some idx"
    by (simp add: scanned_def scan_messageMap_index)
  with i show ?thesis by simp
qed

lemma message_item_exists:
  assumes "first_index (is_chunk_for m) evs = Some idx"
  shows "\<exists>entry. MessageItem m entry idx \<in> set (processedData evs)"
proof -
  have "map_option m_orderIndex (map_of (messageMap (scanned evs)) m) = Some idx"
    using assms by (simp add: scanned_def scan_messageMap_index)
  then obtain entry where e: "map_of (messageMap (scanned evs)) m = Some entry"
    "m_orderIndex entry = idx" by auto
  then have "(m, entry) \<in> set (messageMap (scanned evs))" by (auto dest: map_of_SomeD)
  then have "MessageItem m entry (m_orderIndex entry) \<in> set (processedData evs)"
    by (force simp: set_processedData unsorted_items_def image_iff)
  with e(2) show ?thesis by blast
qed

lemma processedData_sorted: "sorted (map orderIndex (processedData evs))"
  by (simp add: processedData_def)

section \<open>The link of a single claimant and the times of a node\<close>

lemma plain_ids_set: "set evs' = set evs \<Longrightarrow> plain_ids evs' = plain_ids evs"
  by (simp add: plain_ids_def list_all_iff)

lemma link_result_unique:
  assumes "\<exists>n\<in>set ns. claims n r tid" "\<forall>n\<in>set ns. claims n r tid \<longrightarrow> n_runId n = c"
  shows "link_result ns r tid old = Some c"
  using assms
proof (induction ns arbitrary: old)
  case Nil
  then show ?case by simp
next
  case (Cons n ns)
  show ?case
  proof (cases "\<exists>n'\<in>set ns. claims n' r tid")
    case True
    with Cons show ?thesis by (simp add: link_result_Cons)
  next
    case False
    then have "link_result ns r tid x = x" for x
      by (induction ns arbitrary: x) (simp_all add: link_result_def)
    moreover from False Cons.prems have "claims n r tid" "n_runId n = c" by auto
    ultimately show ?thesis by (simp add: link_result_Cons)
  qed
qed

lemma grouped_exists:
  assumes "e \<in> set evs" "runId e = r" "r \<noteq> []"
  shows "\<exists>nd. grouped evs r = Some nd"
proof -
  from assms have "bucket evs r \<noteq> []" by (auto simp: bucket_def filter_empty_conv)
  with assms(3) show ?thesis by (auto simp: grouped_def split: list.splits)
qed

lemma grouped_first:
  assumes "grouped evs r = Some nd"
  shows "\<exists>e0\<in>set evs. runId e0 = r \<and> n_runId nd = r \<and> n_parentId nd = or_null (parentId e0)
           \<and> n_toolCallId nd = or_null (toolCallId e0)"
proof -
  note g = grouped_Some[OF assms]
  have "hd (bucket evs r) \<in> set (bucket evs r)" using g(2) by simp
  then have "hd (bucket evs r) \<in> set evs" "runId (hd (bucket evs r)) = r"
    by (simp_all add: bucket_def)
  moreover have "n_runId nd = runId (hd (bucket evs r))"
    "n_parentId nd = or_null (parentId (hd (bucket evs r)))"
    "n_toolCallId nd = or_null (toolCallId (hd (bucket evs r)))"
    by (subst g(4), simp add: new_node_def)+
  ultimately show ?thesis by auto
qed

lemma prepared_ids:
  "n_runId (extract_tool_calls (set_times nd)) = n_runId nd"
  "n_parentId (extract_tool_calls (set_times nd)) = n_parentId nd"
  "n_toolCallId (extract_tool_calls (set_times nd)) = n_toolCallId nd"
  by (simp_all add: extract_tool_calls_def set_times_def Let_def)

lemma or_null_Some: "or_null x = Some s \<longleftrightarrow> x = Some s \<and> s \<noteq> []"
  by (cases x) (auto simp: or_null_def truthy_str_def)

lemma claims_iff:
  "claims n r tid \<longleftrightarrow> r \<noteq> [] \<and> tid \<noteq> [] \<and> n_parentId n = Some r \<and> n_toolCallId n = Some tid"
  by (cases "n_parentId n"; cases "n_toolCallId n") (auto simp: claims_def truthy_str_def str_of_def)

lemma child_link_single:
  assumes plain: "plain_ids evs"
    and child: "\<exists>e\<in>set evs. runId e = c" "c \<noteq> []"
    and carry: "\<forall>e\<in>set evs. runId e = c \<longrightarrow> parentId e = Some p \<and> toolCallId e = Some t"
    and ne: "p \<noteq> []" "t \<noteq> []"
    and start: "\<exists>e\<in>set evs. runId e = p \<and> is_start_for t e"
    and uniq: "\<forall>e\<in>set evs. parentId e = Some p \<and> toolCallId e = Some t \<longrightarrow> runId e = c"
  shows "child_link evs p t = Some (Some c)"
proof -
  from build_tree_total[OF plain] obtain tree where tree: "buildExecutionTree evs = Inr tree"
    by blast
  from build_tree_char[OF tree] obtain ns where
    m: "\<forall>r. map_of tree r = map_option (final_node ns r) (grouped evs r)"
    and nsset: "\<forall>n. n \<in> set ns \<longleftrightarrow>
                 (\<exists>r nd. grouped evs r = Some nd \<and> n = extract_tool_calls (set_times nd))"
    by blast
  from start obtain s where s: "s \<in> set evs" "runId s = p" "is_start_for t s" by blast
  from grouped_exists[OF s(1,2) ne(1)] obtain ndp where ndp: "grouped evs p = Some ndp" by blast
  note gp = grouped_Some[OF ndp]
  have tcp: "toolCalls ndp = []" by (subst gp(4)) (simp add: new_node_def)
  have "s \<in> set (events ndp)" using s gp(3) by (simp add: bucket_def)
  then have "t \<in> fst ` set (scan_tool_calls (events ndp) [])"
    using s(3) by (auto simp: scan_tool_calls_keys)
  then obtain tc0 where tc0: "map_of (scan_tool_calls (events ndp) []) t = Some tc0"
    by (metis map_of_eq_None_iff not_Some_eq)
  from child obtain ec where ec: "ec \<in> set evs" "runId ec = c" by blast
  from grouped_exists[OF ec child(2)] obtain ndc where ndc: "grouped evs c = Some ndc" by blast
  from grouped_first[OF ndc] carry have idc: "n_runId ndc = c" "n_parentId ndc = Some p"
    "n_toolCallId ndc = Some t"
    using ne by (auto simp: or_null_Some)
  have ex: "\<exists>n\<in>set ns. claims n p t"
  proof
    show "extract_tool_calls (set_times ndc) \<in> set ns" using nsset ndc by blast
    show "claims (extract_tool_calls (set_times ndc)) p t"
      using idc ne by (simp add: claims_iff prepared_ids)
  qed
  have un: "\<forall>n\<in>set ns. claims n p t \<longrightarrow> n_runId n = c"
  proof (intro ballI impI)
    fix n assume "n \<in> set ns" and cl: "claims n p t"
    then obtain r nd where nd: "grouped evs r = Some nd" "n = extract_tool_calls (set_times nd)"
      using nsset by blast
    from grouped_first[OF nd(1)] obtain e0 where e0: "e0 \<in> set evs" "runId e0 = r"
      "n_runId nd = r" "n_parentId nd = or_null (parentId e0)"
      "n_toolCallId nd = or_null (toolCallId e0)" by blast
    from cl have "n_parentId nd = Some p" "n_toolCallId nd = Some t"
      by (simp_all add: claims_iff nd(2) prepared_ids)
    with e0(4,5) have "or_null (parentId e0) = Some p" "or_null (toolCallId e0) = Some t"
      by simp_all
    then have "parentId e0 = Some p" "toolCallId e0 = Some t"
      by (simp_all only: or_null_Some)
    with uniq e0(1) have "runId e0 = c" by blast
    with e0(2,3) show "n_runId n = c" by (simp add: nd(2) prepared_ids)
  qed
  have "map_of (toolCalls (final_node ns p ndp)) t
          = Some (tc0\<lparr>childAgent := link_result ns p t (childAgent tc0)\<rparr>)"
    using tc0 by (simp add: map_of_final_toolCalls tcp)
  moreover have "link_result ns p t (childAgent tc0) = Some c"
    using link_result_unique[OF ex un] .
  moreover have "map_of tree p = Some (final_node ns p ndp)"
    using m ndp by simp
  ultimately show ?thesis
    by (simp add: child_link_def tool_call_def built_node_def tree)
qed

lemma start_time_cases:
  "evs \<noteq> [] \<Longrightarrow>
     or_null (or_else (map_option timestamp (find P evs)) (first_timestamp evs)) =
       (case find P evs of
          Some s \<Rightarrow> if timestamp s \<noteq> [] then Some (timestamp s) else present (timestamp (hd evs))
        | None \<Rightarrow> present (timestamp (hd evs)))"
  by (cases evs; cases "find P evs")
     (simp_all add: or_null_def or_else_def truthy_str_def present_def first_timestamp_def)

lemma end_time_cases:
  "evs \<noteq> [] \<Longrightarrow>
     or_null (or_else (map_option timestamp (find P evs)) (last_timestamp evs)) =
       (case find P evs of
          Some f \<Rightarrow> if timestamp f \<noteq> [] then Some (timestamp f) else present (timestamp (last evs))
        | None \<Rightarrow> present (timestamp (last evs)))"
  by (cases "find P evs")
     (simp_all add: or_null_def or_else_def truthy_str_def present_def last_timestamp_def)

lemma set_times_fields:
  "startTime (set_times nd) =
     or_null (or_else (map_option timestamp (find (\<lambda>e. etype e = Start) (events nd)))
                (first_timestamp (events nd)))"
  "endTime (set_times nd) =
     or_null (or_else (map_option timestamp (find (\<lambda>e. etype e = Finish) (events nd)))
                (last_timestamp (events nd)))"
  by (simp_all add: set_times_def Let_def)

lemma tree_node_times:
  assumes "buildExecutionTree evs = Inr tree" "map_of tree r = Some node"
  shows "events node = bucket evs r" "events node \<noteq> []"
    "startTime node =
       (case find (\<lambda>e. etype e = Start) (events node) of
          Some s \<Rightarrow> if timestamp s \<noteq> [] then Some (timestamp s)
                    else present (timestamp (hd (events node)))
        | None \<Rightarrow> present (timestamp (hd (events node))))"
    "endTime node =
       (case find (\<lambda>e. etype e = Finish) (events node) of
          Some f \<Rightarrow> if timestamp f \<noteq> [] then Some (timestamp f)
                    else present (timestamp (last (events node)))
        | None \<Rightarrow> present (timestamp (last (events node))))"
proof -
  from tree_node[OF assms] obtain ns nd where nd: "grouped evs r = Some nd"
    "node = final_node ns r nd" by blast
  note g = grouped_Some[OF nd(1)]
  have en: "events node = events nd" by (simp add: nd(2) final_node_fields(1))
  show ev: "events node = bucket evs r" using g(3) en by simp
  show ne: "events node \<noteq> []" using g(2) ev by simp
  have "startTime node = startTime (set_times nd)"
    by (simp add: nd(2) final_node_fields(5))
  also have "\<dots> = or_null (or_else (map_option timestamp (find (\<lambda>e. etype e = Start) (events node)))
                (first_timestamp (events node)))"
    by (simp only: set_times_fields en)
  finally show "startTime node =
       (case find (\<lambda>e. etype e = Start) (events node) of
          Some s \<Rightarrow> if timestamp s \<noteq> [] then Some (timestamp s)
                    else present (timestamp (hd (events node)))
        | None \<Rightarrow> present (timestamp (hd (events node))))"
    by (simp only: start_time_cases[OF ne])
  have "endTime node = endTime (set_times nd)"
    by (simp add: nd(2) final_node_fields(6))
  also have "\<dots> = or_null (or_else (map_option timestamp (find (\<lambda>e. etype e = Finish) (events node)))
                (last_timestamp (events node)))"
    by (simp only: set_times_fields en)
  finally show "endTime node =
       (case find (\<lambda>e. etype e = Finish) (events node) of
          Some f \<Rightarrow> if timestamp f \<noteq> [] then Some (timestamp f)
                    else present (timestamp (last (events node)))
        | None \<Rightarrow> present (timestamp (last (events node))))"
    by (simp only: end_time_cases[OF ne])
qed

lemma find_in_set: "find P xs = Some x \<Longrightarrow> x \<in> set xs"
  by (induction xs) (auto split: if_splits)

lemma spec_times_nonempty:
  assumes "evs \<noteq> []" "\<forall>e\<in>set evs. timestamp e \<noteq> []"
  shows "(case find (\<lambda>e. etype e = Start) evs of
          Some s \<Rightarrow> if timestamp s \<noteq> [] then Some (timestamp s)
                    else present (timestamp (hd evs))
        | None \<Rightarrow> present (timestamp (hd evs))) = spec_startTime evs"
    "(case find (\<lambda>e. etype e = Finish) evs of
          Some f \<Rightarrow> if timestamp f \<noteq> [] then Some (timestamp f)
                    else present (timestamp (last evs))
        | None \<Rightarrow> present (timestamp (last evs))) = spec_endTime evs"
proof -
  have h: "timestamp (hd evs) \<noteq> []" "timestamp (last evs) \<noteq> []"
    using assms by simp_all
  have f: "timestamp x \<noteq> []" if "find P evs = Some x" for P x
    using find_in_set[OF that] assms(2) by simp
  show "(case find (\<lambda>e. etype e = Start) evs of
          Some s \<Rightarrow> if timestamp s \<noteq> [] then Some (timestamp s)
                    else present (timestamp (hd evs))
        | None \<Rightarrow> present (timestamp (hd evs))) = spec_startTime evs"
    using h f[of "\<lambda>e. etype e = Start"]
    by (cases "find (\<lambda>e. etype e = Start) evs") (simp_all add: spec_startTime_def present_def)
  show "(case find (\<lambda>e. etype e = Finish) evs of
          Some f \<Rightarrow> if timestamp f \<noteq> [] then Some (timestamp f)
                    else present (timestamp (last evs))
        | None \<Rightarrow> present (timestamp (last evs))) = spec_endTime evs"
    using h f[of "\<lambda>e. etype e = Finish"]
    by (cases "find (\<lambda>e. etype e = Finish) evs") (simp_all add: spec_endTime_def present_def)
qed

section \<open>Reading the projections\<close>

lemma tool_call_SomeD:
  assumes "tool_call evs r tid = Some tc"
  shows "\<exists>tree node. buildExecutionTree evs = Inr tree \<and> map_of tree r = Some node
           \<and> built_node evs r = Some node \<and> map_of (toolCalls node) tid = Some tc"
  using assms by (auto simp: tool_call_def built_node_def split: sum.splits option.splits)

lemma built_node_SomeD:
  assumes "built_node evs r = Some node"
  shows "\<exists>tree. buildExecutionTree evs = Inr tree \<and> map_of tree r = Some node"
  using assms by (auto simp: built_node_def split: sum.splits)

lemma single_match_first:
  "last_index P xs = Some i \<Longrightarrow> length (filter P xs) = 1 \<Longrightarrow> first_index P xs = Some i"
proof (induction xs arbitrary: i)
  case Nil
  then show ?case by simp
next
  case (Cons x xs)
  show ?case
  proof (cases "P x")
    case True
    with Cons.prems(2) have "filter P xs = []" by simp
    then have "\<not> list_ex P xs" by (simp add: filter_empty_conv list_ex_iff)
    then have "last_index P xs = None" by (simp add: last_index_None)
    with Cons.prems(1) True show ?thesis by simp
  next
    case False
    with Cons.prems obtain k where k: "last_index P xs = Some k" "i = Suc k"
      by (auto split: option.splits)
    from False Cons.prems(2) have "length (filter P xs) = 1" by simp
    from Cons.IH[OF k(1) this] False k(2) show ?thesis by simp
  qed
qed

lemma built_node_exists:
  assumes "plain_ids evs" "r \<noteq> []" "bucket evs r \<noteq> []"
  shows "\<exists>node. built_node evs r = Some node"
proof -
  from build_tree_total[OF assms(1)] obtain tree where t: "buildExecutionTree evs = Inr tree"
    by blast
  from build_tree_char[OF t] obtain ns where
    m: "\<forall>r. map_of tree r = map_option (final_node ns r) (grouped evs r)" by blast
  from assms(2,3) obtain nd where "grouped evs r = Some nd"
    by (cases "bucket evs r") (auto simp: grouped_def)
  with m t show ?thesis by (simp add: built_node_def)
qed

section \<open>When the build throws\<close>

lemma find_run: "find (\<lambda>x. runId x = r) evs = Some f \<Longrightarrow> f \<in> set evs \<and> runId f = r"
  by (induction evs) (auto split: if_splits)

lemma bad_run_iff:
  "(\<exists>e\<in>set evs. bad_run evs (runId e)) \<longleftrightarrow> (\<exists>e\<in>set evs. first_of_run evs e \<and> throws_at e)"
proof
  assume "\<exists>e\<in>set evs. bad_run evs (runId e)"
  then obtain e f where e: "e \<in> set evs" "runId e \<noteq> []"
    "find (\<lambda>x. runId x = runId e) evs = Some f" "throws_at f"
    by (auto simp: bad_run_def split: option.splits)
  from find_run[OF e(3)] have f: "f \<in> set evs" "runId f = runId e" by simp_all
  then have "first_of_run evs f" using e(2,3) by (simp add: first_of_run_def)
  with f(1) e(4) show "\<exists>e\<in>set evs. first_of_run evs e \<and> throws_at e" by blast
next
  assume "\<exists>e\<in>set evs. first_of_run evs e \<and> throws_at e"
  then obtain e where "e \<in> set evs" "first_of_run evs e" "throws_at e" by blast
  then show "\<exists>e\<in>set evs. bad_run evs (runId e)"
    by (auto simp: bad_run_def first_of_run_def)
qed

lemma group_events_throw:
  assumes "distinct (map fst nodes)" "\<forall>r. map_of nodes r = grouped done r"
    and "\<forall>e\<in>set done. runId e \<notin> set object_prototype_keys"
    and "\<exists>e\<in>set evs. runId e \<in> set object_prototype_keys"
  shows "forEach_err group_event evs nodes = Inl TypeError"
  using assms
proof (induction evs arbitrary: nodes "done")
  case Nil
  then show ?case by simp
next
  case (Cons e evs)
  show ?case
  proof (cases "runId e \<in> set object_prototype_keys")
    case True
    then have ne: "runId e \<noteq> []" by auto
    have "bucket done (runId e) = []"
      using Cons.prems(3) True by (auto simp: bucket_def filter_empty_conv)
    then have "map_of nodes (runId e) = None"
      using Cons.prems(2) by (simp add: grouped_def)
    with True ne have "group_event nodes e = Inl TypeError"
      by (simp add: group_event_def obj_get_def)
    then show ?thesis by simp
  next
    case False
    with group_event_cases[OF Cons.prems(1,2), of e] obtain n1 where
      n1: "group_event nodes e = Inr n1" "distinct (map fst n1)"
      "\<forall>r. map_of n1 r = grouped (done @ [e]) r" by auto
    have "forEach_err group_event evs n1 = Inl TypeError"
    proof (rule Cons.IH[OF n1(2,3)])
      show "\<forall>x\<in>set (done @ [e]). runId x \<notin> set object_prototype_keys"
        using Cons.prems(3) False by simp
      show "\<exists>x\<in>set evs. runId x \<in> set object_prototype_keys"
        using Cons.prems(4) False by auto
    qed
    with n1(1) show ?thesis by simp
  qed
qed

lemma link_children_throw_iff:
  assumes "distinct (map fst nodes)"
    and "\<forall>kv\<in>set nodes. distinct (map fst (toolCalls (snd kv)))"
    and "\<forall>k\<in>fst ` set nodes. k \<notin> set object_prototype_keys"
  shows "(\<exists>nodes'. forEach_err link_child ns nodes = Inr nodes')
           \<longleftrightarrow> \<not> (\<exists>n\<in>set ns. truthy_str (n_parentId n) \<and> truthy_str (n_toolCallId n)
                         \<and> str_of (n_parentId n) \<in> set object_prototype_keys)"
  using assms
proof (induction ns arbitrary: nodes)
  case Nil
  then show ?case by simp
next
  case (Cons n ns)
  let ?bad = "\<lambda>n. truthy_str (n_parentId n) \<and> truthy_str (n_toolCallId n)
                         \<and> str_of (n_parentId n) \<in> set object_prototype_keys"
  from link_child_cases[OF Cons.prems(1,2), of n]
  consider (l) "link_child nodes n = Inl TypeError" "?bad n"
    | (r) "link_child nodes n = Inr (map (relink n) nodes)" "\<not> ?bad n"
    using Cons.prems(3) by blast
  then show ?case
  proof cases
    case l
    then show ?thesis by simp
  next
    case r
    have "(\<exists>nodes'. forEach_err link_child ns (map (relink n) nodes) = Inr nodes')
            \<longleftrightarrow> \<not> (\<exists>n\<in>set ns. ?bad n)"
    proof (rule Cons.IH)
      show "distinct (map fst (map (relink n) nodes))"
        using Cons.prems(1) by (simp only: relink_keys)
      show "\<forall>kv\<in>set (map (relink n) nodes). distinct (map fst (toolCalls (snd kv)))"
        using relink_tcs_distinct[OF Cons.prems(2)] .
      have "fst ` set (map (relink n) nodes) = fst ` set nodes"
        using relink_keys[of n nodes] by (metis set_map)
      then show "\<forall>k\<in>fst ` set (map (relink n) nodes). k \<notin> set object_prototype_keys"
        using Cons.prems(3) by simp
    qed
    with r show ?thesis by simp
  qed
qed

lemma find_hd_filter: "find P xs = (case filter P xs of [] \<Rightarrow> None | x # _ \<Rightarrow> Some x)"
  by (induction xs) auto

lemma first_of_run_iff:
  "first_of_run evs e \<longleftrightarrow> (\<exists>nd. grouped evs (runId e) = Some nd \<and> hd (bucket evs (runId e)) = e)"
  by (auto simp: first_of_run_def grouped_def bucket_def find_hd_filter split: list.splits)

lemma build_returns_iff:
  "(\<exists>tree. buildExecutionTree evs = Inr tree) \<longleftrightarrow> ids_ok evs"
proof (cases "\<exists>e\<in>set evs. runId e \<in> set object_prototype_keys")
  case True
  then have "forEach_err group_event evs [] = Inl TypeError"
    using group_events_throw[of "[]" "[]" evs] by (simp add: grouped_Nil)
  then have "\<not> (\<exists>tree. buildExecutionTree evs = Inr tree)"
    by (simp add: buildExecutionTree_def)
  moreover have "\<not> ids_ok evs" using True by (auto simp: ids_ok_def list_all_iff)
  ultimately show ?thesis by simp
next
  case False
  with group_events[of evs] obtain nodes1 where n1: "forEach_err group_event evs [] = Inr nodes1"
    and d1: "distinct (map fst nodes1)"
    and m1: "\<forall>r. map_of nodes1 r = grouped evs r" by auto
  define nodes3 where "nodes3 = map_nodes extract_tool_calls (map_nodes set_times nodes1)"
  define ns where "ns = object_values nodes3"
  have d3: "distinct (map fst nodes3)"
    using d1 by (simp add: nodes3_def map_nodes_keys)
  have m3: "map_of nodes3 r = prepared evs r" for r
    using m1 by (simp add: nodes3_def map_of_map_nodes prepared_def option.map_comp comp_def)
  have node3: "\<exists>nd. grouped evs (fst kv) = Some nd \<and> snd kv = extract_tool_calls (set_times nd)"
    if "kv \<in> set nodes3" for kv
  proof -
    from that have "map_of nodes3 (fst kv) = Some (snd kv)"
      using map_of_unique[OF d3] by simp
    then show ?thesis by (auto simp: m3 prepared_def)
  qed
  have t3: "\<forall>kv\<in>set nodes3. distinct (map fst (toolCalls (snd kv)))"
  proof
    fix kv assume "kv \<in> set nodes3"
    from node3[OF this] obtain nd where nd: "grouped evs (fst kv) = Some nd"
      "snd kv = extract_tool_calls (set_times nd)" by blast
    from grouped_Some(4)[OF nd(1)] have "toolCalls nd = []" by (simp add: new_node_def)
    then show "distinct (map fst (toolCalls (snd kv)))"
      using nd(2) by (simp add: extract_tool_calls_def set_times_def Let_def scan_tool_calls_distinct)
  qed
  have k3: "\<forall>k\<in>fst ` set nodes3. k \<notin> set object_prototype_keys"
  proof
    fix k assume "k \<in> fst ` set nodes3"
    then obtain kv where kv: "kv \<in> set nodes3" "k = fst kv" by blast
    from node3[OF kv(1)] obtain nd where "grouped evs k = Some nd" using kv(2) by blast
    from grouped_first[OF this] obtain e0 where "e0 \<in> set evs" "runId e0 = k" by blast
    with False show "k \<notin> set object_prototype_keys" by blast
  qed
  have bad_iff: "(\<exists>n\<in>set ns. truthy_str (n_parentId n) \<and> truthy_str (n_toolCallId n)
                         \<and> str_of (n_parentId n) \<in> set object_prototype_keys)
                 \<longleftrightarrow> (\<exists>e\<in>set evs. first_of_run evs e \<and> throws_at e)"
  proof
    assume "\<exists>n\<in>set ns. truthy_str (n_parentId n) \<and> truthy_str (n_toolCallId n)
                         \<and> str_of (n_parentId n) \<in> set object_prototype_keys"
    then obtain kv where kv: "kv \<in> set nodes3"
      and b: "truthy_str (n_parentId (snd kv))" "truthy_str (n_toolCallId (snd kv))"
        "str_of (n_parentId (snd kv)) \<in> set object_prototype_keys"
      by (auto simp: ns_def set_object_values)
    from node3[OF kv] obtain nd where nd: "grouped evs (fst kv) = Some nd"
      "snd kv = extract_tool_calls (set_times nd)" by blast
    note g = grouped_Some[OF nd(1)]
    define e0 where "e0 = hd (bucket evs (fst kv))"
    have e0: "e0 \<in> set evs" "runId e0 = fst kv"
      using g(2) hd_in_set[of "bucket evs (fst kv)"] by (auto simp: e0_def bucket_def)
    have "first_of_run evs e0"
      using nd(1) e0(2) by (auto simp: first_of_run_iff e0_def)
    moreover have "n_parentId (snd kv) = or_null (parentId e0)"
      "n_toolCallId (snd kv) = or_null (toolCallId e0)"
      using nd(2) g(4) by (simp_all add: prepared_ids new_node_def e0_def)
    then have "throws_at e0"
      using b by (auto simp: throws_at_def or_null_def split: if_splits simp: truthy_str_def)
    ultimately show "\<exists>e\<in>set evs. first_of_run evs e \<and> throws_at e" using e0(1) by blast
  next
    assume "\<exists>e\<in>set evs. first_of_run evs e \<and> throws_at e"
    then obtain e where e: "e \<in> set evs" "first_of_run evs e" "throws_at e" by blast
    from e(2) obtain nd where nd: "grouped evs (runId e) = Some nd"
      "hd (bucket evs (runId e)) = e" by (auto simp: first_of_run_iff)
    note g = grouped_Some[OF nd(1)]
    define n where "n = extract_tool_calls (set_times nd)"
    have "map_of nodes3 (runId e) = Some n" by (simp add: m3 prepared_def nd(1) n_def)
    then have "(runId e, n) \<in> set nodes3" by (rule map_of_SomeD)
    then have "n \<in> set ns" by (force simp: ns_def set_object_values)
    moreover have "n_parentId n = or_null (parentId e)" "n_toolCallId n = or_null (toolCallId e)"
      using g(4) nd(2) by (simp_all add: n_def prepared_ids new_node_def)
    then have "truthy_str (n_parentId n) \<and> truthy_str (n_toolCallId n)
                 \<and> str_of (n_parentId n) \<in> set object_prototype_keys"
      using e(3) by (simp add: throws_at_def or_null_def)
    ultimately show "\<exists>n\<in>set ns. truthy_str (n_parentId n) \<and> truthy_str (n_toolCallId n)
                         \<and> str_of (n_parentId n) \<in> set object_prototype_keys" by blast
  qed
  have "(\<exists>tree. buildExecutionTree evs = Inr tree)
          \<longleftrightarrow> (\<exists>nodes'. forEach_err link_child ns nodes3 = Inr nodes')"
    using n1 by (simp add: buildExecutionTree_def nodes3_def ns_def Let_def)
  also have "\<dots> \<longleftrightarrow> \<not> (\<exists>e\<in>set evs. first_of_run evs e \<and> throws_at e)"
    using link_children_throw_iff[OF d3 t3 k3, of ns] bad_iff by simp
  also have "\<dots> \<longleftrightarrow> \<not> (\<exists>e\<in>set evs. bad_run evs (runId e))"
    by (simp only: bad_run_iff)
  also have "\<dots> \<longleftrightarrow> ids_ok evs"
    using False by (auto simp: ids_ok_def list_all_iff)
  finally show ?thesis .
qed

lemma find_ids:
  assumes "map ids xs = map ids ys"
  shows "map_option ids (find (\<lambda>x. runId x = r) xs) = map_option ids (find (\<lambda>x. runId x = r) ys)"
  using assms
proof (induction xs arbitrary: ys)
  case Nil
  then show ?case by simp
next
  case (Cons x xs)
  then obtain y ys' where ys: "ys = y # ys'" "ids x = ids y" "map ids xs = map ids ys'"
    by (cases ys) auto
  from ys(2) have "runId x = runId y" by (simp add: ids_def)
  with Cons.IH[OF ys(3)] ys show ?case by simp
qed

lemma throws_at_ids: "ids f = ids g \<Longrightarrow> throws_at f = throws_at g"
  by (simp add: ids_def throws_at_def)

lemma bad_run_same_ids:
  assumes "map ids xs = map ids ys"
  shows "bad_run xs r = bad_run ys r"
proof -
  from find_ids[OF assms, of r]
  show ?thesis
    by (cases "find (\<lambda>x. runId x = r) xs"; cases "find (\<lambda>x. runId x = r) ys")
       (auto simp: bad_run_def dest: throws_at_ids)
qed

lemma run_ids_same:
  assumes "map ids xs = map ids ys"
  shows "runId ` set xs = runId ` set ys"
proof -
  have r: "map runId zs = map fst (map ids zs)" for zs
    by (simp add: ids_def comp_def)
  have "map runId xs = map runId ys" unfolding r assms ..
  then have "set (map runId xs) = set (map runId ys)" by (rule arg_cong)
  then show ?thesis by (simp only: set_map)
qed

lemma ids_ok_same_ids:
  assumes "map ids xs = map ids ys"
  shows "ids_ok xs = ids_ok ys"
proof -
  define good where "good zs r \<longleftrightarrow> r \<notin> set object_prototype_keys \<and> \<not> bad_run zs r" for zs r
  have c: "ids_ok zs \<longleftrightarrow> (\<forall>r\<in>runId ` set zs. good zs r)" for zs
    by (auto simp: ids_ok_def list_all_iff good_def)
  have g: "good xs r = good ys r" for r
    using bad_run_same_ids[OF assms] by (simp add: good_def)
  show ?thesis
    unfolding c run_ids_same[OF assms] g ..
qed

lemma build_returns_same_ids:
  assumes "map ids xs = map ids ys"
  shows "(\<exists>tree. buildExecutionTree xs = Inr tree) \<longleftrightarrow> (\<exists>tree. buildExecutionTree ys = Inr tree)"
  using ids_ok_same_ids[OF assms] by (simp only: build_returns_iff)

lemma payload_irrelevant:
  "(\<exists>tree. buildExecutionTree (xs @ e # ys) = Inr tree)
     \<longleftrightarrow> (\<exists>tree. buildExecutionTree (xs @ e\<lparr>payload := pl\<rparr> # ys) = Inr tree)"
  by (rule build_returns_same_ids) (simp add: ids_def)

lemma plain_ids_ok: "plain_ids evs \<Longrightarrow> ids_ok evs"
  using build_tree_total build_returns_iff by blast

section \<open>Identifiers that meet the tree object's inherited properties or its key order\<close>

text \<open>
  The build throws on a run identifier or a parent identifier that names an inherited
  property, and \<open>Object.values\<close> lists runs with array-index identifiers first. The
  theorems below that speak of a built tree therefore assume plain identifiers, or that the
  build returned, and hold for every order in which the nodes are visited.
\<close>

lemma inherited_run_id_throws:
  "buildExecutionTree [mk_event Start ''constructor'' None None ''1'' None] = Inl TypeError"
  by (simp add: example_defs js_defs tree_defs)

lemma inherited_parent_id_throws:
  "buildExecutionTree [sub_start ''B'' ''toString'' ''t1'' ''1''] = Inl TypeError"
  by (simp add: example_defs js_defs tree_defs Let_def)

lemma array_index_run_ids_first:
  "root_ids [mk_event Start ''b'' None None ''1'' None, mk_event Start ''10'' None None ''2'' None,
             mk_event Start ''9'' None None ''3'' None] = Some [''9'', ''10'', ''b'']"
  by (simp add: example_defs js_defs tree_defs view_defs Let_def)

section \<open>Claims\<close>

subsection \<open>C1: disclosure stickiness\<close>

text \<open>
  C1 says that once the user has toggled a message, no later event arrival changes that
  message's disclosure flag. The effect does not keep to it. The message \<open>m1\<close> gets its
  reasoning, then its text (the effect collapses it), the user opens it again, and the
  next event of the node collapses it once more: the collapse rule compares the current
  content with the first event of the message, which never had content, and it does not
  look at the flag, unlike the expand rule.
\<close>

theorem C1_toggle_overridden_by_collapse:
  "expandedItems before_toggle = [(''m1'', False)]
   \<and> expandedItems after_toggle = [(''m1'', True)]
   \<and> expandedItems after_event = [(''m1'', False)]
   \<and> isExpanded after_toggle ''m1''
   \<and> \<not> isExpanded after_event ''m1''"
  by (simp add: after_event_def after_toggle_def before_toggle_def think_1_def text_2_def
        text_3_def example_defs js_defs items_defs policy_defs Let_def)

subsection \<open>C2: order index of the consolidated items\<close>

text \<open>
  C2 as stated fails: when a tool call identifier starts twice, its item carries the
  index of the later start, and a message that arrived in between is listed before it.
  In \<open>restarted_tool\<close> the identifier \<open>t1\<close> is first seen at index 0, yet its item
  carries index 2 and follows the message of index 1.
\<close>

theorem C2_first_seen_counterexample:
  "processedData restarted_tool =
     [MessageItem ''m1'' (create_entry (text_chunk ''A'' ''2'' ''m1'' ''Hi'') 1) 1,
      ToolCallItem ''t1'' 2]
   \<and> first_index (is_start_for ''t1'') restarted_tool = Some 0"
  by (simp add: restarted_tool_def example_defs js_defs items_defs is_start_for_def Let_def)

text \<open>
  C2, amended. In the consolidator's output for a node's events, every tool call item
  carries the index of the last tool call start bearing its identifier (which is the
  first-seen index when the identifier starts once), every identifier that starts has an
  item, every message item carries the index of the first chunk of its message, and the
  merged list is sorted ascending by these indices.
\<close>

theorem C2_items_by_order_index:
  "(\<forall>tid idx. ToolCallItem tid idx \<in> set (processedData evs) \<longrightarrow>
       idx < length evs \<and> is_start_for tid (evs ! idx)
       \<and> (\<forall>j. idx < j \<and> j < length evs \<longrightarrow> \<not> is_start_for tid (evs ! j))
       \<and> (length (filter (is_start_for tid) evs) = 1 \<longrightarrow>
            first_index (is_start_for tid) evs = Some idx))
   \<and> (\<forall>tid. list_ex (is_start_for tid) evs \<longrightarrow>
         (\<exists>idx. ToolCallItem tid idx \<in> set (processedData evs)))
   \<and> (\<forall>m entry idx. MessageItem m entry idx \<in> set (processedData evs) \<longrightarrow>
         idx < length evs \<and> is_chunk_for m (evs ! idx) \<and> (\<forall>j<idx. \<not> is_chunk_for m (evs ! j)))
   \<and> sorted (map orderIndex (processedData evs))"
proof (intro conjI allI impI)
  fix tid idx assume "ToolCallItem tid idx \<in> set (processedData evs)"
  then have l: "last_index (is_start_for tid) evs = Some idx" by (simp add: tool_item_iff)
  from last_index_Some[OF l]
  show "idx < length evs" "is_start_for tid (evs ! idx)" by simp_all
  show "\<not> is_start_for tid (evs ! j)" if "idx < j \<and> j < length evs" for j
    using last_index_Some[OF l] that by blast
  show "first_index (is_start_for tid) evs = Some idx"
    if "length (filter (is_start_for tid) evs) = 1"
    using single_match_first[OF l that] .
next
  fix tid assume "list_ex (is_start_for tid) evs"
  then obtain idx where "last_index (is_start_for tid) evs = Some idx"
    using last_index_None[of "is_start_for tid" evs] by auto
  then show "\<exists>idx. ToolCallItem tid idx \<in> set (processedData evs)"
    by (auto simp: tool_item_iff)
next
  fix m entry idx assume "MessageItem m entry idx \<in> set (processedData evs)"
  then have f: "first_index (is_chunk_for m) evs = Some idx"
    using message_item_index by blast
  from first_index_Some[OF f]
  show "idx < length evs" "is_chunk_for m (evs ! idx)" by simp_all
  show "\<not> is_chunk_for m (evs ! j)" if "j < idx" for j
    using first_index_Some[OF f] that by blast
next
  show "sorted (map orderIndex (processedData evs))" by (rule processedData_sorted)
qed

theorem C2_items_by_order_index_witness:
  "ToolCallItem ''t1'' 2 \<in> set (processedData restarted_tool)
   \<and> is_start_for ''t1'' (restarted_tool ! 2)
   \<and> list_ex (is_start_for ''t1'') restarted_tool
   \<and> MessageItem ''m1'' (create_entry (text_chunk ''A'' ''2'' ''m1'' ''Hi'') 1) 1
        \<in> set (processedData restarted_tool)
   \<and> is_chunk_for ''m1'' (restarted_tool ! 1)
   \<and> sorted (map orderIndex (processedData restarted_tool))"
proof -
  have p: "processedData restarted_tool =
     [MessageItem ''m1'' (create_entry (text_chunk ''A'' ''2'' ''m1'' ''Hi'') 1) 1,
      ToolCallItem ''t1'' 2]"
    by (simp add: restarted_tool_def example_defs js_defs items_defs Let_def)
  have t: "ToolCallItem ''t1'' 2 \<in> set (processedData restarted_tool)"
    and m: "MessageItem ''m1'' (create_entry (text_chunk ''A'' ''2'' ''m1'' ''Hi'') 1) 1
        \<in> set (processedData restarted_tool)"
    by (simp_all add: p)
  have l: "list_ex (is_start_for ''t1'') restarted_tool"
    by (simp add: restarted_tool_def example_defs js_defs is_start_for_def)
  from C2_items_by_order_index[of restarted_tool] t m l show ?thesis by blast
qed

subsection \<open>C3 and C9: duplicate suppression\<close>

text \<open>
  C3. Appending a candidate twice gives the same event list as appending it once, hence
  the same derived tree and the same consolidated items; and an append is a no-op whenever
  the list already holds an event with the candidate's run identifier, type, timestamp and
  payload message identifier.
\<close>

theorem C3_append_idempotent:
  "appendEvent (appendEvent prev (Some c)) (Some c) = appendEvent prev (Some c)
   \<and> buildExecutionTree (appendEvent (appendEvent prev (Some c)) (Some c))
       = buildExecutionTree (appendEvent prev (Some c))
   \<and> derived_items (appendEvent (appendEvent prev (Some c)) (Some c))
       = derived_items (appendEvent prev (Some c))
   \<and> (isDuplicate prev c \<longrightarrow> appendEvent prev (Some c) = prev)"
  by (simp add: appendEvent_twice) (simp add: appendEvent_def)

theorem C3_append_idempotent_witness:
  "isDuplicate [text_chunk ''A'' ''t1'' ''m1'' ''Hi''] (text_chunk ''A'' ''t1'' ''m1'' ''Hi'')
   \<and> appendEvent [text_chunk ''A'' ''t1'' ''m1'' ''Hi'']
        (Some (text_chunk ''A'' ''t1'' ''m1'' ''Hi'')) = [text_chunk ''A'' ''t1'' ''m1'' ''Hi'']
   \<and> appendEvent (appendEvent [] (Some (text_chunk ''A'' ''t1'' ''m1'' ''Hi'')))
        (Some (text_chunk ''A'' ''t1'' ''m1'' ''Hi'')) = [text_chunk ''A'' ''t1'' ''m1'' ''Hi'']"
  using C3_append_idempotent [of "[text_chunk ''A'' ''t1'' ''m1'' ''Hi'']"
                                 "text_chunk ''A'' ''t1'' ''m1'' ''Hi''"]
        C3_append_idempotent [of "[]" "text_chunk ''A'' ''t1'' ''m1'' ''Hi''"]
  by (simp add: isDuplicate_def appendEvent_def)

text \<open>
  C9. A candidate that agrees with an event already in the list on run identifier, type,
  timestamp and payload message identifier is discarded whatever its other payload fields
  are: the event list, the tree and the consolidated items stay as they were.
\<close>

theorem C9_same_key_discarded:
  assumes "E \<in> set prev" "runId c = runId E" "etype c = etype E"
    "timestamp c = timestamp E" "payload_str messageId c = payload_str messageId E"
  shows "appendEvent prev (Some c) = prev
         \<and> buildExecutionTree (appendEvent prev (Some c)) = buildExecutionTree prev
         \<and> derived_items (appendEvent prev (Some c)) = derived_items prev"
proof -
  have "isDuplicate prev c"
    using assms by (intro isDuplicate_key[of E]) simp_all
  then have "appendEvent prev (Some c) = prev"
    by (simp add: appendEvent_def)
  then show ?thesis by simp
qed

theorem C9_same_key_discarded_witness:
  "text_chunk ''A'' ''t1'' ''m1'' ''Hello'' \<noteq> text_chunk ''A'' ''t1'' ''m1'' ''Hi''
   \<and> appendEvent [text_chunk ''A'' ''t1'' ''m1'' ''Hi'']
        (Some (text_chunk ''A'' ''t1'' ''m1'' ''Hello'')) = [text_chunk ''A'' ''t1'' ''m1'' ''Hi'']
   \<and> derived_items (appendEvent [text_chunk ''A'' ''t1'' ''m1'' ''Hi'']
        (Some (text_chunk ''A'' ''t1'' ''m1'' ''Hello'')))
       = derived_items [text_chunk ''A'' ''t1'' ''m1'' ''Hi'']"
proof -
  have ne: "text_chunk ''A'' ''t1'' ''m1'' ''Hello'' \<noteq> text_chunk ''A'' ''t1'' ''m1'' ''Hi''"
    by (simp add: text_chunk_def mk_event_def no_payload_def)
  have k: "text_chunk ''A'' ''t1'' ''m1'' ''Hi'' \<in> set [text_chunk ''A'' ''t1'' ''m1'' ''Hi'']"
    by simp
  show ?thesis
    using ne C9_same_key_discarded [OF k, of "text_chunk ''A'' ''t1'' ''m1'' ''Hello''"]
    by (simp add: text_chunk_def mk_event_def no_payload_def payload_str_def)
qed

subsection \<open>C4: a tool result attaches only after its start\<close>

text \<open>
  C4. In the tree built from any event list, a tool call of a node has a result event
  only if that event is a tool result with the tool call's identifier and a tool call
  start with that identifier occurs earlier in the same node's events. A node whose events
  hold no start for an identifier has no entry for it. A tool result that finds no entry
  leaves the map as it is (the scan has no failing branch), so the scan of a node's events
  gives the same map with and without an orphaned result. The build itself returns on
  every list whose identifiers are plain, and whether it returns never depends on the
  payload of an event.
\<close>

theorem C4_result_needs_earlier_start:
  "(\<forall>r tid tc rv. tool_call evs r tid = Some tc \<and> resultEvent tc = Some rv \<longrightarrow>
      (\<exists>i j. i < j \<and> j < length (bucket evs r) \<and> is_start_for tid (bucket evs r ! i)
             \<and> bucket evs r ! j = rv \<and> is_result_for tid rv))
   \<and> (\<forall>r node tid. built_node evs r = Some node \<and> \<not> list_ex (is_start_for tid) (bucket evs r) \<longrightarrow>
         events node = bucket evs r \<and> map_of (toolCalls node) tid = None)
   \<and> (\<forall>tid rv tcs. is_result_for tid rv \<and> map_of tcs tid = None \<longrightarrow> tool_event tcs rv = tcs)
   \<and> (\<forall>tid rv xs ys. is_result_for tid rv \<and> \<not> list_ex (is_start_for tid) xs \<longrightarrow>
         scan_tool_calls (xs @ rv # ys) [] = scan_tool_calls (xs @ ys) [])
   \<and> (plain_ids evs \<longrightarrow> (\<exists>tree. buildExecutionTree evs = Inr tree))
   \<and> (\<forall>xs rv ys pl. (\<exists>tree. buildExecutionTree (xs @ rv # ys) = Inr tree)
          \<longleftrightarrow> (\<exists>tree. buildExecutionTree (xs @ rv\<lparr>payload := pl\<rparr> # ys) = Inr tree))"
proof (intro conjI allI impI)
  fix xs rv ys pl
  show "(\<exists>tree. buildExecutionTree (xs @ rv # ys) = Inr tree)
          \<longleftrightarrow> (\<exists>tree. buildExecutionTree (xs @ rv\<lparr>payload := pl\<rparr> # ys) = Inr tree)"
    by (rule payload_irrelevant)
next
  fix r tid tc rv assume a: "tool_call evs r tid = Some tc \<and> resultEvent tc = Some rv"
  then obtain tree node where t: "buildExecutionTree evs = Inr tree" "map_of tree r = Some node"
    "map_of (toolCalls node) tid = Some tc"
    using tool_call_SomeD by blast
  from tree_node_tool_result[OF t] a tree_node_times(1)[OF t(1,2)]
  show "\<exists>i j. i < j \<and> j < length (bucket evs r) \<and> is_start_for tid (bucket evs r ! i)
             \<and> bucket evs r ! j = rv \<and> is_result_for tid rv"
    by simp
next
  fix r node tid
  assume a: "built_node evs r = Some node \<and> \<not> list_ex (is_start_for tid) (bucket evs r)"
  then obtain tree where t: "buildExecutionTree evs = Inr tree" "map_of tree r = Some node"
    using built_node_SomeD by blast
  show ev: "events node = bucket evs r" using tree_node_times(1)[OF t] .
  from tree_node[OF t] obtain ns nd where nd: "grouped evs r = Some nd"
    "node = final_node ns r nd" by blast
  have e: "toolCalls nd = []" by (subst grouped_Some(4)[OF nd(1)]) (simp add: new_node_def)
  have en: "events nd = bucket evs r" using ev by (simp add: nd(2) final_node_fields(1))
  have "tid \<notin> fst ` set (scan_tool_calls (events nd) [])"
    using a by (simp add: scan_tool_calls_keys en list_ex_iff)
  then have "map_of (scan_tool_calls (events nd) []) tid = None"
    by (simp add: map_of_eq_None_iff)
  then show "map_of (toolCalls node) tid = None"
    by (simp add: nd(2) map_of_final_toolCalls e)
next
  fix tid rv and tcs :: "(string \<times> ToolCallNode) list"
  assume "is_result_for tid rv \<and> map_of tcs tid = None"
  then show "tool_event tcs rv = tcs" using orphan_result_dropped by blast
next
  fix tid rv xs ys assume "is_result_for tid rv \<and> \<not> list_ex (is_start_for tid) xs"
  then show "scan_tool_calls (xs @ rv # ys) [] = scan_tool_calls (xs @ ys) []"
    using orphan_result_scan by blast
next
  assume "plain_ids evs"
  then show "\<exists>tree. buildExecutionTree evs = Inr tree" by (rule build_tree_total)
qed

theorem C4_result_needs_earlier_start_witness:
  "map_option resultEvent (tool_call sc ''A'' ''t1'') = Some (Some (sc ! 5))
   \<and> (\<exists>i j. i < j \<and> j < length (bucket sc ''A'') \<and> is_start_for ''t1'' (bucket sc ''A'' ! i)
             \<and> bucket sc ''A'' ! j = sc ! 5 \<and> is_result_for ''t1'' (sc ! 5))
   \<and> is_result_for ''t1'' (sc ! 5) \<and> \<not> list_ex (is_start_for ''t1'') [sc ! 0]
   \<and> scan_tool_calls ([sc ! 0] @ sc ! 5 # [sc ! 6]) [] = scan_tool_calls ([sc ! 0] @ [sc ! 6]) []
   \<and> plain_ids sc \<and> (\<exists>tree. buildExecutionTree sc = Inr tree)"
proof -
  have tc: "tool_call sc ''A'' ''t1'' =
     Some \<lparr> tc_toolCallId = ''t1'', tc_toolName = ''search'', startEvent = sc ! 1,
            resultEvent = Some (sc ! 5), childAgent = Some ''B'' \<rparr>"
    by (simp add: sc_def scenario_def js_defs tree_defs example_defs view_defs Let_def)
  have r: "is_result_for ''t1'' (sc ! 5)" "\<not> list_ex (is_start_for ''t1'') [sc ! 0]"
    by (simp_all add: sc_def scenario_def example_defs is_result_for_def is_start_for_def js_defs)
  have p: "plain_ids sc"
    by (simp add: plain_ids_def sc_def scenario_def example_defs js_defs)
  note c4 = C4_result_needs_earlier_start[of sc]
  from c4 have a: "\<forall>r tid tc rv. tool_call sc r tid = Some tc \<and> resultEvent tc = Some rv \<longrightarrow>
      (\<exists>i j. i < j \<and> j < length (bucket sc r) \<and> is_start_for tid (bucket sc r ! i)
             \<and> bucket sc r ! j = rv \<and> is_result_for tid rv)"
    by (rule conjunct1)
  from c4 have d: "\<forall>tid rv xs ys. is_result_for tid rv \<and> \<not> list_ex (is_start_for tid) xs \<longrightarrow>
         scan_tool_calls (xs @ rv # ys) [] = scan_tool_calls (xs @ ys) []"
    by blast
  from c4 have e: "plain_ids sc \<longrightarrow> (\<exists>tree. buildExecutionTree sc = Inr tree)"
    by blast
  have "\<exists>i j. i < j \<and> j < length (bucket sc ''A'') \<and> is_start_for ''t1'' (bucket sc ''A'' ! i)
             \<and> bucket sc ''A'' ! j = sc ! 5 \<and> is_result_for ''t1'' (sc ! 5)"
  proof -
    obtain tc' where "tool_call sc ''A'' ''t1'' = Some tc'" "resultEvent tc' = Some (sc ! 5)"
      using tc by simp
    with a show ?thesis by blast
  qed
  moreover have "scan_tool_calls ([sc ! 0] @ sc ! 5 # [sc ! 6]) []
                   = scan_tool_calls ([sc ! 0] @ [sc ! 6]) []"
    using d r by blast
  moreover have "\<exists>tree. buildExecutionTree sc = Inr tree" using e p by blast
  ultimately show ?thesis using tc r p by simp
qed

subsection \<open>C5: linking a child run to its parent's tool call\<close>

text \<open>
  C5 as stated fails when two runs name the same tool call of the same parent: a tool
  call has one \<open>childAgent\<close>, and the run visited last takes it. In \<open>two_claimants\<close> the
  runs \<open>C1\<close> and \<open>C2\<close> both carry parent \<open>P\<close> and tool call \<open>t1\<close>; the link goes to
  \<open>C2\<close>, not to \<open>C1\<close>, and moving the events of \<open>C2\<close> in front of the parent's first event
  turns the link to \<open>C1\<close>.
\<close>

theorem C5_two_claimants_counterexample:
  "child_link two_claimants ''P'' ''t1'' = Some (Some ''C2'')
   \<and> child_link two_claimants_moved ''P'' ''t1'' = Some (Some ''C1'')
   \<and> bucket two_claimants ''C1'' = [sub_start ''C1'' ''P'' ''t1'' ''3'']
   \<and> set two_claimants_moved = set two_claimants"
  by (simp add: two_claimants_def two_claimants_moved_def bucket_def example_defs js_defs
        tree_defs view_defs Let_def insert_commute)

text \<open>
  C5, amended. Take an event list with plain identifiers that holds events of a run \<open>c\<close>,
  all of them carrying the non-empty parent identifier \<open>p\<close> and tool call identifier \<open>t\<close>,
  and a tool call start for \<open>t\<close> in run \<open>p\<close>, and in which no event of another run carries
  that pair. Then the tree built from the list links tool call \<open>t\<close> of node \<open>p\<close> to node
  \<open>c\<close>, and so does the tree built from any list with the same events in another order.
\<close>

theorem C5_unique_child_linked:
  assumes "plain_ids evs"
    and "\<exists>e\<in>set evs. runId e = c" "c \<noteq> []"
    and "\<forall>e\<in>set evs. runId e = c \<longrightarrow> parentId e = Some p \<and> toolCallId e = Some t"
    and "p \<noteq> []" "t \<noteq> []"
    and "\<exists>e\<in>set evs. runId e = p \<and> is_start_for t e"
    and "\<forall>e\<in>set evs. parentId e = Some p \<and> toolCallId e = Some t \<longrightarrow> runId e = c"
    and "set evs' = set evs"
  shows "child_link evs p t = Some (Some c) \<and> child_link evs' p t = Some (Some c)"
proof
  have s: "set evs' = set evs" by fact
  show "child_link evs p t = Some (Some c)"
    using assms(1-8) by (rule child_link_single)
  show "child_link evs' p t = Some (Some c)"
  proof (rule child_link_single)
    show "plain_ids evs'" using assms(1) by (simp only: plain_ids_set[OF s])
    show "\<exists>e\<in>set evs'. runId e = c" unfolding s by fact
    show "c \<noteq> []" by fact
    show "\<forall>e\<in>set evs'. runId e = c \<longrightarrow> parentId e = Some p \<and> toolCallId e = Some t"
      unfolding s by fact
    show "p \<noteq> []" by fact
    show "t \<noteq> []" by fact
    show "\<exists>e\<in>set evs'. runId e = p \<and> is_start_for t e" unfolding s by fact
    show "\<forall>e\<in>set evs'. parentId e = Some p \<and> toolCallId e = Some t \<longrightarrow> runId e = c"
      unfolding s by fact
  qed
qed

theorem C5_unique_child_linked_witness:
  "plain_ids sc \<and> set sc_child_first = set sc
   \<and> sc_child_first = [sc ! 2, sc ! 3, sc ! 4, sc ! 0, sc ! 1, sc ! 5, sc ! 6]
   \<and> child_link sc ''A'' ''t1'' = Some (Some ''B'')
   \<and> child_link sc_child_first ''A'' ''t1'' = Some (Some ''B'')"
proof -
  have p: "plain_ids sc"
    by (simp add: plain_ids_def sc_def scenario_def example_defs js_defs)
  have o: "sc_child_first = [sc ! 2, sc ! 3, sc ! 4, sc ! 0, sc ! 1, sc ! 5, sc ! 6]"
    by (simp add: sc_child_first_def bucket_def sc_def scenario_def example_defs)
  have s: "set sc_child_first = set sc"
    by (auto simp: sc_child_first_def bucket_def sc_def scenario_def example_defs)
  have "child_link sc ''A'' ''t1'' = Some (Some ''B'')
        \<and> child_link sc_child_first ''A'' ''t1'' = Some (Some ''B'')"
    by (rule C5_unique_child_linked[OF p _ _ _ _ _ _ _ s])
       (simp_all add: sc_def scenario_def example_defs is_start_for_def js_defs)
  with p o s show ?thesis by simp
qed

subsection \<open>C6: merging disjoint fields of one message\<close>

text \<open>
  C6. Let \<open>E1\<close> and \<open>E2\<close> be chunks of the same message, \<open>E1\<close> carrying the reasoning \<open>a\<close>
  and no content, \<open>E2\<close> a text chunk carrying the text \<open>b\<close> and no reasoning. Consolidating
  them in either order gives one message with reasoning \<open>a\<close> and text \<open>b\<close>. Its place in
  the interleaved list is that of whichever of the two events came first, in both orders:
  a tool call that starts between the two events or after them is listed after the
  message, and a tool call that starts before them is listed before it, although the
  messages are collected first and the tool calls second. In general, in the consolidated
  items of any event list the item of the message carries the index of the first chunk of
  the message, and the items are sorted ascending by their indices.
\<close>

theorem C6_disjoint_merge_commutes:
  assumes "a \<noteq> []" "b \<noteq> []" "m \<noteq> []"
    and "isTextChunk E1 \<or> isStructuredChunk E1" "isTextChunk E2"
    and "payload E1 = Some p1" "messageId p1 = Some m" "thinking p1 = Some a"
        "\<not> truthy (content p1)"
    and "payload E2 = Some p2" "messageId p2 = Some m" "content p2 = JStr b"
        "\<not> truthy_str (thinking p2)"
    and "is_start_for t S"
  shows "\<exists>en1 en2.
           processedData [E1, E2] = [MessageItem m en1 0]
         \<and> processedData [E2, E1] = [MessageItem m en2 0]
         \<and> processedData [E1, S, E2] = [MessageItem m en1 0, ToolCallItem t 1]
         \<and> processedData [E2, S, E1] = [MessageItem m en2 0, ToolCallItem t 1]
         \<and> processedData [E1, E2, S] = [MessageItem m en1 0, ToolCallItem t 2]
         \<and> processedData [E2, E1, S] = [MessageItem m en2 0, ToolCallItem t 2]
         \<and> processedData [S, E1, E2] =
               [ToolCallItem t 0, MessageItem m (en1\<lparr>m_orderIndex := 1\<rparr>) 1]
         \<and> processedData [S, E2, E1] =
               [ToolCallItem t 0, MessageItem m (en2\<lparr>m_orderIndex := 1\<rparr>) 1]
         \<and> m_thinking en1 = a \<and> m_textContent en1 = JStr b
         \<and> m_thinking en2 = a \<and> m_textContent en2 = JStr b
         \<and> m_orderIndex en1 = 0 \<and> m_orderIndex en2 = 0
         \<and> m_event en1 = E1 \<and> m_event en2 = E2
         \<and> (\<forall>evs entry idx. MessageItem m entry idx \<in> set (processedData evs) \<longrightarrow>
                idx < length evs \<and> is_chunk_for m (evs ! idx)
                \<and> (\<forall>j<idx. \<not> is_chunk_for m (evs ! j)) \<and> m_orderIndex entry = idx)
         \<and> (\<forall>evs. sorted (map orderIndex (processedData evs)))"
proof -
  have ns1: "etype E1 \<noteq> ToolCallStart" and ns2: "etype E2 \<noteq> ToolCallStart"
    using assms(4,5) by (auto simp: isTextChunk_def isStructuredChunk_def)
  have s2: "\<not> isStructuredChunk E2"
    using assms(5) by (auto simp: isTextChunk_def isStructuredChunk_def)
  have sS: "etype S = ToolCallStart" "payload_str p_toolCallId S = Some t" "t \<noteq> []"
    "\<not> isTextChunk S" "\<not> isStructuredChunk S"
    using assms(14) by (auto simp: is_start_for_def isTextChunk_def isStructuredChunk_def)
  have pm: "payload_str messageId E1 = Some m" "payload_str messageId E2 = Some m"
    "payload_str thinking E1 = Some a" "payload_val content E2 = JStr b"
    "\<not> truthy (payload_val content E1)" "\<not> truthy_str (payload_str thinking E2)"
    using assms(6-13) by (simp_all add: payload_str_def payload_val_def)
  define en1 where "en1 = update_entry (create_entry E1 0) E2"
  define en2 where "en2 = update_entry (create_entry E2 0) E1"
  have f: "m_thinking en1 = a" "m_textContent en1 = JStr b"
    "m_thinking en2 = a" "m_textContent en2 = JStr b"
    "m_orderIndex en1 = 0" "m_orderIndex en2 = 0" "m_event en1 = E1" "m_event en2 = E2"
    using assms(1-5) ns1 ns2 s2 pm
    by (auto simp: en1_def en2_def create_entry_def update_entry_def truthy_str_def str_of_def
          or_str_def Let_def)
  have sh: "en1\<lparr>m_orderIndex := 1\<rparr> = update_entry (create_entry E1 1) E2"
    "en2\<lparr>m_orderIndex := 1\<rparr> = update_entry (create_entry E2 1) E1"
    by (simp_all add: en1_def en2_def create_entry_def update_entry_def Let_def)
  have p: "processedData [E1, E2] = [MessageItem m en1 0]"
    "processedData [E2, E1] = [MessageItem m en2 0]"
    "processedData [E1, S, E2] = [MessageItem m en1 0, ToolCallItem t 1]"
    "processedData [E2, S, E1] = [MessageItem m en2 0, ToolCallItem t 1]"
    "processedData [E1, E2, S] = [MessageItem m en1 0, ToolCallItem t 2]"
    "processedData [E2, E1, S] = [MessageItem m en2 0, ToolCallItem t 2]"
    using assms(1-5) ns1 ns2 s2 sS pm f(5,6)
    by (simp_all add: processedData_def unsorted_items_def process_event_def truthy_str_def
          str_of_def Let_def en1_def[symmetric] en2_def[symmetric]
          update_entry_orderIndex create_entry_orderIndex)
  have q: "processedData [S, E1, E2] =
               [ToolCallItem t 0, MessageItem m (en1\<lparr>m_orderIndex := 1\<rparr>) 1]"
    "processedData [S, E2, E1] =
               [ToolCallItem t 0, MessageItem m (en2\<lparr>m_orderIndex := 1\<rparr>) 1]"
    unfolding sh
    using assms(1-5) ns1 ns2 s2 sS pm
    by (simp_all add: processedData_def unsorted_items_def process_event_def truthy_str_def
          str_of_def Let_def update_entry_orderIndex create_entry_orderIndex)
  have g: "\<forall>evs entry idx. MessageItem m entry idx \<in> set (processedData evs) \<longrightarrow>
                idx < length evs \<and> is_chunk_for m (evs ! idx)
                \<and> (\<forall>j<idx. \<not> is_chunk_for m (evs ! j)) \<and> m_orderIndex entry = idx"
  proof (intro allI impI)
    fix evs entry idx assume "MessageItem m entry idx \<in> set (processedData evs)"
    from message_item_index[OF this] have i: "first_index (is_chunk_for m) evs = Some idx"
      and o: "m_orderIndex entry = idx" by simp_all
    from first_index_Some[OF i] o
    show "idx < length evs \<and> is_chunk_for m (evs ! idx)
            \<and> (\<forall>j<idx. \<not> is_chunk_for m (evs ! j)) \<and> m_orderIndex entry = idx"
      by simp
  qed
  have h: "\<forall>evs. sorted (map orderIndex (processedData evs))"
    by (simp add: processedData_sorted)
  show ?thesis
    by (intro exI[of _ en1] exI[of _ en2] conjI) (rule p q f g h)+
qed

theorem C6_disjoint_merge_commutes_witness:
  "\<exists>en1 en2.
       processedData [thinking_chunk ''A'' ''1'' ''m1'' ''a'', text_chunk ''A'' ''2'' ''m1'' ''b'']
         = [MessageItem ''m1'' en1 0]
     \<and> processedData [text_chunk ''A'' ''2'' ''m1'' ''b'', thinking_chunk ''A'' ''1'' ''m1'' ''a'']
         = [MessageItem ''m1'' en2 0]
     \<and> processedData [tool_start ''A'' ''3'' ''t1'', thinking_chunk ''A'' ''1'' ''m1'' ''a'',
                       text_chunk ''A'' ''2'' ''m1'' ''b'']
         = [ToolCallItem ''t1'' 0, MessageItem ''m1'' (en1\<lparr>m_orderIndex := 1\<rparr>) 1]
     \<and> processedData [tool_start ''A'' ''3'' ''t1'', text_chunk ''A'' ''2'' ''m1'' ''b'',
                       thinking_chunk ''A'' ''1'' ''m1'' ''a'']
         = [ToolCallItem ''t1'' 0, MessageItem ''m1'' (en2\<lparr>m_orderIndex := 1\<rparr>) 1]
     \<and> m_thinking en1 = ''a'' \<and> m_textContent en1 = JStr ''b''
     \<and> m_thinking en2 = ''a'' \<and> m_textContent en2 = JStr ''b''"
proof -
  have "\<exists>en1 en2.
           processedData [thinking_chunk ''A'' ''1'' ''m1'' ''a'', text_chunk ''A'' ''2'' ''m1'' ''b'']
             = [MessageItem ''m1'' en1 0]
         \<and> processedData [text_chunk ''A'' ''2'' ''m1'' ''b'', thinking_chunk ''A'' ''1'' ''m1'' ''a'']
             = [MessageItem ''m1'' en2 0]
         \<and> processedData [thinking_chunk ''A'' ''1'' ''m1'' ''a'', tool_start ''A'' ''3'' ''t1'',
                           text_chunk ''A'' ''2'' ''m1'' ''b'']
             = [MessageItem ''m1'' en1 0, ToolCallItem ''t1'' 1]
         \<and> processedData [text_chunk ''A'' ''2'' ''m1'' ''b'', tool_start ''A'' ''3'' ''t1'',
                           thinking_chunk ''A'' ''1'' ''m1'' ''a'']
             = [MessageItem ''m1'' en2 0, ToolCallItem ''t1'' 1]
         \<and> processedData [thinking_chunk ''A'' ''1'' ''m1'' ''a'', text_chunk ''A'' ''2'' ''m1'' ''b'',
                           tool_start ''A'' ''3'' ''t1'']
             = [MessageItem ''m1'' en1 0, ToolCallItem ''t1'' 2]
         \<and> processedData [text_chunk ''A'' ''2'' ''m1'' ''b'', thinking_chunk ''A'' ''1'' ''m1'' ''a'',
                           tool_start ''A'' ''3'' ''t1'']
             = [MessageItem ''m1'' en2 0, ToolCallItem ''t1'' 2]
         \<and> processedData [tool_start ''A'' ''3'' ''t1'', thinking_chunk ''A'' ''1'' ''m1'' ''a'',
                           text_chunk ''A'' ''2'' ''m1'' ''b'']
             = [ToolCallItem ''t1'' 0, MessageItem ''m1'' (en1\<lparr>m_orderIndex := 1\<rparr>) 1]
         \<and> processedData [tool_start ''A'' ''3'' ''t1'', text_chunk ''A'' ''2'' ''m1'' ''b'',
                           thinking_chunk ''A'' ''1'' ''m1'' ''a'']
             = [ToolCallItem ''t1'' 0, MessageItem ''m1'' (en2\<lparr>m_orderIndex := 1\<rparr>) 1]
         \<and> m_thinking en1 = ''a'' \<and> m_textContent en1 = JStr ''b''
         \<and> m_thinking en2 = ''a'' \<and> m_textContent en2 = JStr ''b''
         \<and> m_orderIndex en1 = 0 \<and> m_orderIndex en2 = 0
         \<and> m_event en1 = thinking_chunk ''A'' ''1'' ''m1'' ''a''
         \<and> m_event en2 = text_chunk ''A'' ''2'' ''m1'' ''b''
         \<and> (\<forall>evs entry idx. MessageItem ''m1'' entry idx \<in> set (processedData evs) \<longrightarrow>
                idx < length evs \<and> is_chunk_for ''m1'' (evs ! idx)
                \<and> (\<forall>j<idx. \<not> is_chunk_for ''m1'' (evs ! j)) \<and> m_orderIndex entry = idx)
         \<and> (\<forall>evs. sorted (map orderIndex (processedData evs)))"
    by (rule C6_disjoint_merge_commutes
              [where ?p1.0 = "no_payload\<lparr>messageId := Some ''m1'', thinking := Some ''a''\<rparr>"
                 and ?p2.0 = "no_payload\<lparr>messageId := Some ''m1'', content := JStr ''b''\<rparr>"])
       (simp_all add: example_defs isTextChunk_def is_start_for_def js_defs)
  then show ?thesis by blast
qed

subsection \<open>C7: the scenario "tool call with sub-agent"\<close>

text \<open>
  C7. For the seven events of the scenario, with any timestamps and any tool result:
  delivered one at a time none is suppressed; the built tree has the single root \<open>A\<close>;
  the consolidated items of \<open>A\<close> are the one tool call item \<open>t1\<close>, and \<open>A\<close> has the one
  tool call \<open>t1\<close>, named \<open>search\<close>, whose \<open>childAgent\<close> refers to node \<open>B\<close> and whose
  \<open>resultEvent\<close> is the tool result event; the consolidated items of \<open>B\<close> are the one
  message \<open>m2\<close> with text \<open>found it\<close>.
\<close>

theorem C7_tool_call_with_sub_agent:
  "foldl appendEvent [] (map Some (scenario t1 t2 t3 t4 t5 t6 t7 res))
     = scenario t1 t2 t3 t4 t5 t6 t7 res
   \<and> root_ids (scenario t1 t2 t3 t4 t5 t6 t7 res) = Some [''A'']
   \<and> node_items (scenario t1 t2 t3 t4 t5 t6 t7 res) ''A'' = Some [ToolCallItem ''t1'' 1]
   \<and> map_option (\<lambda>node. map fst (toolCalls node))
        (built_node (scenario t1 t2 t3 t4 t5 t6 t7 res) ''A'') = Some [''t1'']
   \<and> tool_call (scenario t1 t2 t3 t4 t5 t6 t7 res) ''A'' ''t1'' =
        Some \<lparr> tc_toolCallId = ''t1'', tc_toolName = ''search'',
               startEvent = scenario t1 t2 t3 t4 t5 t6 t7 res ! 1,
               resultEvent = Some (scenario t1 t2 t3 t4 t5 t6 t7 res ! 5),
               childAgent = Some ''B'' \<rparr>
   \<and> map_option n_runId (built_node (scenario t1 t2 t3 t4 t5 t6 t7 res) ''B'') = Some ''B''
   \<and> node_items (scenario t1 t2 t3 t4 t5 t6 t7 res) ''B'' =
        Some [MessageItem ''m2''
                \<lparr> m_messageId = ''m2'',
                  m_event = scenario t1 t2 t3 t4 t5 t6 t7 res ! 3,
                  m_thinking = [], m_textContent = JStr ''found it'', m_finalAnswer = [],
                  m_structuredContent = JUndefined, m_suggestion = [], m_orderIndex = 1 \<rparr> 1]"
proof (intro conjI)
  show "foldl appendEvent [] (map Some (scenario t1 t2 t3 t4 t5 t6 t7 res))
          = scenario t1 t2 t3 t4 t5 t6 t7 res"
    by (simp add: scenario_def example_defs appendEvent_def isDuplicate_def)
  show "root_ids (scenario t1 t2 t3 t4 t5 t6 t7 res) = Some [''A'']"
    by (simp add: scenario_def js_defs tree_defs example_defs view_defs Let_def)
  show "node_items (scenario t1 t2 t3 t4 t5 t6 t7 res) ''A'' = Some [ToolCallItem ''t1'' 1]"
    by (simp add: scenario_def js_defs tree_defs example_defs view_defs items_defs Let_def)
  show "map_option (\<lambda>node. map fst (toolCalls node))
          (built_node (scenario t1 t2 t3 t4 t5 t6 t7 res) ''A'') = Some [''t1'']"
    by (simp add: scenario_def js_defs tree_defs example_defs view_defs Let_def)
  show "tool_call (scenario t1 t2 t3 t4 t5 t6 t7 res) ''A'' ''t1'' =
        Some \<lparr> tc_toolCallId = ''t1'', tc_toolName = ''search'',
               startEvent = scenario t1 t2 t3 t4 t5 t6 t7 res ! 1,
               resultEvent = Some (scenario t1 t2 t3 t4 t5 t6 t7 res ! 5),
               childAgent = Some ''B'' \<rparr>"
    by (simp add: scenario_def js_defs tree_defs example_defs view_defs Let_def)
  show "map_option n_runId (built_node (scenario t1 t2 t3 t4 t5 t6 t7 res) ''B'') = Some ''B''"
    by (simp add: scenario_def js_defs tree_defs example_defs view_defs Let_def)
  show "node_items (scenario t1 t2 t3 t4 t5 t6 t7 res) ''B'' =
        Some [MessageItem ''m2''
                \<lparr> m_messageId = ''m2'',
                  m_event = scenario t1 t2 t3 t4 t5 t6 t7 res ! 3,
                  m_thinking = [], m_textContent = JStr ''found it'', m_finalAnswer = [],
                  m_structuredContent = JUndefined, m_suggestion = [], m_orderIndex = 1 \<rparr> 1]"
    by (simp add: scenario_def js_defs tree_defs example_defs view_defs items_defs Let_def)
qed

theorem C7_tool_call_with_sub_agent_witness:
  "root_ids sc = Some [''A'']
   \<and> node_items sc ''A'' = Some [ToolCallItem ''t1'' 1]
   \<and> map_option childAgent (tool_call sc ''A'' ''t1'') = Some (Some ''B'')
   \<and> map_option resultEvent (tool_call sc ''A'' ''t1'') = Some (Some (sc ! 5))"
  using C7_tool_call_with_sub_agent
          [of "''1''" "''2''" "''3''" "''4''" "''5''" "''6''" "''7''" "JObj ''{}''"]
  by (simp add: sc_def)

subsection \<open>C8: start and end time of a node\<close>

text \<open>
  C8 as stated fails for a start (or finish) event whose timestamp is the empty string:
  \<open>||\<close> passes over it. In \<open>empty_start_time\<close> the node's first start event has the
  timestamp \<open>''''\<close>, and the node's start time is the timestamp of its first event.
\<close>

theorem C8_empty_timestamp_counterexample:
  "map_option events (built_node empty_start_time ''A'') = Some empty_start_time
   \<and> map_option startTime (built_node empty_start_time ''A'') = Some (Some ''t0'')
   \<and> spec_startTime empty_start_time = Some []"
  by (simp add: empty_start_time_def example_defs js_defs tree_defs view_defs
        spec_startTime_def Let_def)

text \<open>
  C8, amended. Every node of the built tree holds the non-empty bucket of its run. Its
  start time is the timestamp of its first start event if there is one and that timestamp
  is not empty, and otherwise the timestamp of its first event, or null when that is
  empty; its end time is the timestamp of its first finish event if there is one and that
  timestamp is not empty, and otherwise the timestamp of its last event, or null when that
  is empty. When no event of the node has an empty timestamp, these are the times the
  claim states. On a list with plain identifiers every run with events has a node.
\<close>

theorem C8_times_with_fallback:
  "(\<forall>node. built_node evs r = Some node \<longrightarrow>
       events node = bucket evs r \<and> events node \<noteq> []
       \<and> startTime node =
           (case find (\<lambda>e. etype e = Start) (events node) of
              Some s \<Rightarrow> if timestamp s \<noteq> [] then Some (timestamp s)
                        else present (timestamp (hd (events node)))
            | None \<Rightarrow> present (timestamp (hd (events node))))
       \<and> endTime node =
           (case find (\<lambda>e. etype e = Finish) (events node) of
              Some f \<Rightarrow> if timestamp f \<noteq> [] then Some (timestamp f)
                        else present (timestamp (last (events node)))
            | None \<Rightarrow> present (timestamp (last (events node))))
       \<and> ((\<forall>e\<in>set (events node). timestamp e \<noteq> []) \<longrightarrow>
             startTime node = spec_startTime (events node)
             \<and> endTime node = spec_endTime (events node)))
   \<and> (plain_ids evs \<and> r \<noteq> [] \<and> bucket evs r \<noteq> [] \<longrightarrow> built_node evs r \<noteq> None)"
proof (intro conjI allI impI)
  fix node assume "built_node evs r = Some node"
  then obtain tree where t: "buildExecutionTree evs = Inr tree" "map_of tree r = Some node"
    using built_node_SomeD by blast
  note tm = tree_node_times[OF t]
  show "events node = bucket evs r" by (rule tm(1))
  show "events node \<noteq> []" by (rule tm(2))
  show "startTime node =
           (case find (\<lambda>e. etype e = Start) (events node) of
              Some s \<Rightarrow> if timestamp s \<noteq> [] then Some (timestamp s)
                        else present (timestamp (hd (events node)))
            | None \<Rightarrow> present (timestamp (hd (events node))))"
    by (rule tm(3))
  show "endTime node =
           (case find (\<lambda>e. etype e = Finish) (events node) of
              Some f \<Rightarrow> if timestamp f \<noteq> [] then Some (timestamp f)
                        else present (timestamp (last (events node)))
            | None \<Rightarrow> present (timestamp (last (events node))))"
    by (rule tm(4))
  assume ne: "\<forall>e\<in>set (events node). timestamp e \<noteq> []"
  show "startTime node = spec_startTime (events node)"
    using tm(3) spec_times_nonempty(1)[OF tm(2) ne] by simp
  show "endTime node = spec_endTime (events node)"
    using tm(4) spec_times_nonempty(2)[OF tm(2) ne] by simp
next
  assume "plain_ids evs \<and> r \<noteq> [] \<and> bucket evs r \<noteq> []"
  then show "built_node evs r \<noteq> None" using built_node_exists by blast
qed

theorem C8_times_with_fallback_witness:
  "plain_ids empty_start_time \<and> bucket empty_start_time ''A'' = empty_start_time
   \<and> (\<exists>node. built_node empty_start_time ''A'' = Some node \<and> events node = empty_start_time
         \<and> startTime node = Some ''t0'' \<and> endTime node = None)
   \<and> (\<exists>node. built_node sc ''B'' = Some node \<and> events node = [sc ! 2, sc ! 3, sc ! 4]
         \<and> startTime node = Some ''3'' \<and> endTime node = Some ''5''
         \<and> startTime node = spec_startTime (events node)
         \<and> endTime node = spec_endTime (events node))"
proof -
  have p: "plain_ids empty_start_time"
    by (simp add: plain_ids_def empty_start_time_def example_defs js_defs)
  have b: "bucket empty_start_time ''A'' = empty_start_time"
    by (simp add: bucket_def empty_start_time_def example_defs)
  note c8 = C8_times_with_fallback[of empty_start_time "''A''"]
  from c8 p b have "built_node empty_start_time ''A'' \<noteq> None"
    by (simp add: empty_start_time_def)
  then obtain node where n: "built_node empty_start_time ''A'' = Some node" by blast
  with c8 b have "events node = empty_start_time"
    "startTime node =
       (case find (\<lambda>e. etype e = Start) (events node) of
          Some s \<Rightarrow> if timestamp s \<noteq> [] then Some (timestamp s)
                    else present (timestamp (hd (events node)))
        | None \<Rightarrow> present (timestamp (hd (events node))))"
    "endTime node =
       (case find (\<lambda>e. etype e = Finish) (events node) of
          Some f \<Rightarrow> if timestamp f \<noteq> [] then Some (timestamp f)
                    else present (timestamp (last (events node)))
        | None \<Rightarrow> present (timestamp (last (events node))))"
    by simp_all
  then have e1: "events node = empty_start_time \<and> startTime node = Some ''t0''
                 \<and> endTime node = None"
    by (simp add: empty_start_time_def example_defs present_def)
  have p2: "plain_ids sc"
    by (simp add: plain_ids_def sc_def scenario_def example_defs js_defs)
  have b2: "bucket sc ''B'' = [sc ! 2, sc ! 3, sc ! 4]"
    by (simp add: bucket_def sc_def scenario_def example_defs)
  note c8' = C8_times_with_fallback[of sc "''B''"]
  from c8' p2 b2 have "built_node sc ''B'' \<noteq> None" by simp
  then obtain node2 where n2: "built_node sc ''B'' = Some node2" by blast
  with c8' b2 have ev2: "events node2 = [sc ! 2, sc ! 3, sc ! 4]" by simp
  then have ts2: "\<forall>e\<in>set (events node2). timestamp e \<noteq> []"
    by (simp add: sc_def scenario_def example_defs)
  from c8' n2 ts2 have sp: "startTime node2 = spec_startTime (events node2)"
    "endTime node2 = spec_endTime (events node2)" by blast+
  then have "startTime node2 = Some ''3''" "endTime node2 = Some ''5''"
    by (simp_all add: ev2 spec_startTime_def spec_endTime_def sc_def scenario_def example_defs)
  with n2 ev2 sp have e2: "\<exists>node. built_node sc ''B'' = Some node
         \<and> events node = [sc ! 2, sc ! 3, sc ! 4]
         \<and> startTime node = Some ''3'' \<and> endTime node = Some ''5''
         \<and> startTime node = spec_startTime (events node)
         \<and> endTime node = spec_endTime (events node)"
    by simp
  from p b n e1 e2 show ?thesis by blast
qed

subsection \<open>C10: a tool call start without an identifier\<close>

text \<open>
  C10. A tool call start whose payload carries no tool call identifier (no payload, no
  such field, or the empty string) is ignored by both passes: the step 3 scan and the
  consolidator's scan return their state unchanged at it, so the tool call map of a node
  is the same with and without the event, no consolidated item of a list containing it
  carries its index, and no tool call of any node of the built tree has it as start
  event. Neither scan has a failing branch, the build returns on every list with plain
  identifiers that contains such an event, and whether the build returns is the same
  whatever payload the event carries.
\<close>

theorem C10_start_without_id_ignored:
  assumes "etype e = ToolCallStart" "\<not> truthy_str (payload_str p_toolCallId e)"
  shows "tool_event tcs e = tcs
     \<and> scan_tool_calls (xs @ e # ys) tcs = scan_tool_calls (xs @ ys) tcs
     \<and> process_event st idx e = st
     \<and> (\<forall>item\<in>set (processedData (xs @ e # ys)). orderIndex item \<noteq> length xs)
     \<and> (\<forall>r tid tc. tool_call (xs @ e # ys) r tid = Some tc \<longrightarrow> startEvent tc \<noteq> e)
     \<and> (plain_ids (xs @ e # ys) \<longrightarrow> (\<exists>tree. buildExecutionTree (xs @ e # ys) = Inr tree))
     \<and> (\<forall>pl. (\<exists>tree. buildExecutionTree (xs @ e # ys) = Inr tree)
            \<longleftrightarrow> (\<exists>tree. buildExecutionTree (xs @ e\<lparr>payload := pl\<rparr> # ys) = Inr tree))"
proof -
  have ns: "\<not> is_start_for tid e" for tid
    using assms(2) by (auto simp: is_start_for_def truthy_str_def)
  have nc: "\<not> is_chunk_for m e" for m
    using assms(1) by (simp add: is_chunk_for_def isTextChunk_def isStructuredChunk_def)
  have te: "tool_event tcs' e = tcs'" for tcs'
    using assms by (simp add: tool_event_def)
  have sc: "scan_tool_calls (xs @ e # ys) tcs = scan_tool_calls (xs @ ys) tcs"
    by (simp add: scan_tool_calls_append scan_tool_calls_Cons te)
  have pe: "process_event st idx e = st"
    using assms by (simp add: process_event_def isTextChunk_def isStructuredChunk_def)
  have at: "(xs @ e # ys) ! length xs = e" by simp
  have it: "\<forall>item\<in>set (processedData (xs @ e # ys)). orderIndex item \<noteq> length xs"
  proof
    fix item assume i: "item \<in> set (processedData (xs @ e # ys))"
    show "orderIndex item \<noteq> length xs"
    proof (cases item)
      case (MessageItem m entry k)
      with i have "first_index (is_chunk_for m) (xs @ e # ys) = Some k"
        using message_item_index by blast
      from first_index_Some[OF this] have "is_chunk_for m ((xs @ e # ys) ! k)" by simp
      with nc at MessageItem show ?thesis by auto
    next
      case (ToolCallItem tid k)
      with i have "last_index (is_start_for tid) (xs @ e # ys) = Some k"
        by (simp add: tool_item_iff)
      from last_index_Some[OF this] have "is_start_for tid ((xs @ e # ys) ! k)" by simp
      with ns at ToolCallItem show ?thesis by auto
    qed
  qed
  have tl: "\<forall>r tid tc. tool_call (xs @ e # ys) r tid = Some tc \<longrightarrow> startEvent tc \<noteq> e"
  proof (intro allI impI)
    fix r tid tc assume "tool_call (xs @ e # ys) r tid = Some tc"
    then obtain tree node where t: "buildExecutionTree (xs @ e # ys) = Inr tree"
      "map_of tree r = Some node" "map_of (toolCalls node) tid = Some tc"
      using tool_call_SomeD by blast
    from tree_node[OF t(1,2)] obtain ns' nd where nd: "grouped (xs @ e # ys) r = Some nd"
      "node = final_node ns' r nd" by blast
    have e0: "toolCalls nd = []" by (subst grouped_Some(4)[OF nd(1)]) (simp add: new_node_def)
    from t(3) obtain tc0 where tc0: "map_of (scan_tool_calls (events nd) []) tid = Some tc0"
      "tc = tc0\<lparr>childAgent := link_result ns' r tid (childAgent tc0)\<rparr>"
      by (auto simp: nd(2) map_of_final_toolCalls e0)
    with tc_inv_scan[of "events nd"] obtain i where "is_start_for tid (events nd ! i)"
      "startEvent tc0 = events nd ! i"
      unfolding tc_inv_def by blast
    with ns tc0(2) show "startEvent tc \<noteq> e" by auto
  qed
  have pi: "\<forall>pl. (\<exists>tree. buildExecutionTree (xs @ e # ys) = Inr tree)
            \<longleftrightarrow> (\<exists>tree. buildExecutionTree (xs @ e\<lparr>payload := pl\<rparr> # ys) = Inr tree)"
    using payload_irrelevant by blast
  have bt: "plain_ids (xs @ e # ys) \<longrightarrow> (\<exists>tree. buildExecutionTree (xs @ e # ys) = Inr tree)"
    using build_tree_total by blast
  show ?thesis
    by (intro conjI) (rule te sc pe it tl bt pi)+
qed

theorem C10_start_without_id_ignored_witness:
  "etype (mk_event ToolCallStart ''A'' None None ''2'' None) = ToolCallStart
   \<and> \<not> truthy_str (payload_str p_toolCallId (mk_event ToolCallStart ''A'' None None ''2'' None))
   \<and> plain_ids ([sc ! 0] @ mk_event ToolCallStart ''A'' None None ''2'' None # [sc ! 6])
   \<and> processedData ([sc ! 0] @ mk_event ToolCallStart ''A'' None None ''2'' None # [sc ! 6]) = []
   \<and> scan_tool_calls ([sc ! 0] @ mk_event ToolCallStart ''A'' None None ''2'' None # [sc ! 6]) []
       = scan_tool_calls ([sc ! 0] @ [sc ! 6]) []
   \<and> (\<exists>tree. buildExecutionTree ([sc ! 0] @ mk_event ToolCallStart ''A'' None None ''2'' None # [sc ! 6])
               = Inr tree)"
proof -
  have h: "etype (mk_event ToolCallStart ''A'' None None ''2'' None) = ToolCallStart"
    "\<not> truthy_str (payload_str p_toolCallId (mk_event ToolCallStart ''A'' None None ''2'' None))"
    by (simp_all add: example_defs js_defs)
  have p: "plain_ids ([sc ! 0] @ mk_event ToolCallStart ''A'' None None ''2'' None # [sc ! 6])"
    by (simp add: plain_ids_def sc_def scenario_def example_defs js_defs)
  have d: "processedData ([sc ! 0] @ mk_event ToolCallStart ''A'' None None ''2'' None # [sc ! 6]) = []"
    by (simp add: sc_def scenario_def example_defs js_defs items_defs Let_def)
  from C10_start_without_id_ignored[OF h, of "[]" "[sc ! 0]" "[sc ! 6]"] h p d
  show ?thesis by (auto simp del: append.simps)
qed

end
